theory Spec2Isabelle
  imports Main "HOL-Library.Word"
begin

unbundle bit_operations_syntax

section \<open>The consistent-hash ring of package consistenthash\<close>

text \<open>
  The embedding follows the variant of the package whose \<open>HashRing\<close> keeps the dual index
  \<open>vnodeToNode\<close> / \<open>nodeToVnode\<close>.  The read/write lock is not modelled: every operation
  holds it for its whole duration, so each operation is one state transition.
\<close>

subsection \<open>Data model\<close>

type_synonym u16 = "16 word"
type_synonym u32 = "32 word"

text \<open>\<open>type Hash32 func(data []byte) uint32\<close>; a Go string converted to bytes is a \<open>string\<close>.\<close>

type_synonym Hash32 = "string \<Rightarrow> u32"

text \<open>
  The two error values of the package, and the two run-time panics its code can raise
  (an integer division by zero in \<open>add\<close>, an index out of range in \<open>Get\<close>).
\<close>

datatype error = ErrRingEmpty | ErrRingFull | PanicDivideByZero | PanicIndexOutOfRange

record HashRing =
  HashFunc :: Hash32
  replicas :: u16
  vNodes :: "u32 list"
  vnodeToNode :: "u32 \<rightharpoonup> string"
  nodeToVnode :: "string \<rightharpoonup> u32 list"

definition limitVNodes :: nat where
  "limitVNodes = 2 ^ 30"

definition miniReplicas :: u16 where
  "miniReplicas = 2"

definition defaultReplicas :: u16 where
  "defaultReplicas = 128"

subsection \<open>Library functions the package calls\<close>

text \<open>
  \<open>crc32.ChecksumIEEE\<close> of the Go standard library: the reflected CRC-32 with polynomial
  \<open>0xEDB88320\<close>, initial value and final complement \<open>0xFFFFFFFF\<close>, computed bit by bit.
\<close>

definition crc_bit :: "u32 \<Rightarrow> u32" where
  "crc_bit c = (if bit c 0 then drop_bit 1 c XOR 0xEDB88320 else drop_bit 1 c)"

definition crc_byte :: "char \<Rightarrow> u32 \<Rightarrow> u32" where
  "crc_byte b c = (crc_bit ^^ 8) (c XOR of_char b)"

definition ChecksumIEEE :: Hash32 where
  "ChecksumIEEE data = NOT (fold crc_byte data 0xFFFFFFFF)"

text \<open>\<open>strconv.Itoa\<close>: the decimal representation of an \<open>int\<close>.\<close>

fun udigits :: "nat \<Rightarrow> string" where
  "udigits n =
     (if n < 10 then [''0123456789'' ! n]
      else udigits (n div 10) @ [''0123456789'' ! (n mod 10)])"

declare udigits.simps [simp del]

definition Itoa :: "int \<Rightarrow> string" where
  "Itoa i = (if i < 0 then CHR ''-'' # udigits (nat (- i)) else udigits (nat i))"

text \<open>
  \<open>sort.Search(n, f)\<close>: binary search for the least index in \<open>[0, n)\<close> at which \<open>f\<close>
  holds, \<open>n\<close> when there is none; \<open>i\<close> and \<open>j\<close> are the loop variables of the library code.
\<close>

function search_loop :: "(nat \<Rightarrow> bool) \<Rightarrow> nat \<Rightarrow> nat \<Rightarrow> nat" where
  "search_loop f i j =
     (if i < j then
        (let h = (i + j) div 2
         in if \<not> f h then search_loop f (h + 1) j else search_loop f i h)
      else i)"
  by pat_completeness auto
termination
  by (relation "measure (\<lambda>(f, i, j). j - i)") auto

declare search_loop.simps [simp del]

definition Search :: "nat \<Rightarrow> (nat \<Rightarrow> bool) \<Rightarrow> nat" where
  "Search n f = search_loop f 0 n"

subsection \<open>Construction and helpers\<close>

text \<open>\<open>New\<close>; a nil hash function is \<open>None\<close>.  The capacity hints do not affect behaviour.\<close>

definition New :: "u16 \<Rightarrow> Hash32 option \<Rightarrow> HashRing" where
  "New r hash =
     \<lparr> HashFunc = (case hash of None \<Rightarrow> ChecksumIEEE | Some h \<Rightarrow> h),
       replicas = (if r < miniReplicas then defaultReplicas else r),
       vNodes = [],
       vnodeToNode = Map.empty,
       nodeToVnode = Map.empty \<rparr>"

text \<open>
  \<open>numHash\<close>: the product wraps around at 32 bits, as the source's comment notes.  The
  only caller passes \<open>segmentLen\<close>, which is at least 65537, so \<open>%\<close> never divides by zero.
\<close>

definition numHash :: "u32 \<Rightarrow> u32 \<Rightarrow> u32" where
  "numHash key mx = (key * 16777619) mod mx"

definition combKey :: "string \<Rightarrow> int \<Rightarrow> string" where
  "combKey node idx = Itoa idx @ node"

text \<open>\<open>len\<close> of a Go map is the number of its keys.\<close>

definition len_map :: "('k \<rightharpoonup> 'v) \<Rightarrow> nat" where
  "len_map mp = card (dom mp)"

definition IsEmpty :: "HashRing \<Rightarrow> bool" where
  "IsEmpty m = (len_map (vnodeToNode m) = 0)"

subsection \<open>Adding nodes\<close>

text \<open>
  \<open>segmentLen\<close>, computed once per call of \<open>add\<close>: \<open>uint32(math.MaxUint32 / int(m.replicas))\<close>.
\<close>

definition segment_len :: "u16 \<Rightarrow> u32" where
  "segment_len r = word_of_nat (4294967295 div unat r)"

text \<open>
  The two statements \<open>segmentIdx = numHash(\<dots>, segmentLen); vhash32 = segmentStart + segmentIdx\<close>
  that \<open>add\<close> runs on the hash of the key and again on every retry, with
  \<open>segmentStart = segmentLen * uint32(ui)\<close>.
\<close>

definition segment_pos :: "u32 \<Rightarrow> u16 \<Rightarrow> u32 \<Rightarrow> u32" where
  "segment_pos segmentLen ui key =
     (let segmentStart = segmentLen * ucast ui;
          segmentIdx = numHash key segmentLen
      in segmentStart + segmentIdx)"

text \<open>
  The position chosen for virtual node \<open>ui\<close> of \<open>node\<close>: the first candidate, or on a
  collision the rehash of the previous candidate plus one, twice at most; \<open>None\<close> is the
  \<open>continue\<close> that skips the virtual node.
\<close>

definition vnode_pos :: "u32 \<Rightarrow> string \<Rightarrow> u16 \<Rightarrow> HashRing \<Rightarrow> u32 option" where
  "vnode_pos segmentLen node ui m =
     (let vhash0 = segment_pos segmentLen ui (HashFunc m (combKey node (uint ui)))
      in if vnodeToNode m vhash0 \<noteq> None then
           (let vhash1 = segment_pos segmentLen ui (vhash0 + 1)
            in if vnodeToNode m vhash1 \<noteq> None then
                 (let vhash2 = segment_pos segmentLen ui (vhash1 + 1)
                  in if vnodeToNode m vhash2 \<noteq> None then None else Some vhash2)
               else Some vhash1)
         else Some vhash0)"

text \<open>The body of the inner loop of \<open>add\<close>.  Appending to a missing map entry appends to nil.\<close>

definition add_vnode :: "u32 \<Rightarrow> string \<Rightarrow> u16 \<Rightarrow> HashRing \<Rightarrow> HashRing" where
  "add_vnode segmentLen node ui m =
     (case vnode_pos segmentLen node ui m of
        None \<Rightarrow> m
      | Some vhash32 \<Rightarrow>
          m\<lparr> vnodeToNode := (vnodeToNode m)(vhash32 \<mapsto> node),
             vNodes := vNodes m @ [vhash32],
             nodeToVnode := (nodeToVnode m)(node \<mapsto>
               (case nodeToVnode m node of None \<Rightarrow> [] | Some ps \<Rightarrow> ps) @ [vhash32]) \<rparr>)"

text \<open>The body of the outer loop of \<open>add\<close>; \<open>ui\<close> runs over \<open>0 .. replicas - 1\<close>.\<close>

definition add_node :: "u32 \<Rightarrow> string \<Rightarrow> HashRing \<Rightarrow> HashRing" where
  "add_node segmentLen node m =
     (if nodeToVnode m node \<noteq> None then m
      else fold (\<lambda>i. add_vnode segmentLen node (of_nat i)) [0 ..< unat (replicas m)]
             (m\<lparr> nodeToVnode := (nodeToVnode m)(node \<mapsto> []) \<rparr>))"

text \<open>
  \<open>add\<close>.  The division \<open>math.MaxUint32 / int(m.replicas)\<close> panics when \<open>replicas\<close> is zero,
  before anything is written.  \<open>sort.Sort\<close> on a slice of integers yields its sorted
  permutation.
\<close>

definition add :: "bool \<Rightarrow> string list \<Rightarrow> HashRing \<Rightarrow> HashRing \<times> error option" where
  "add doSort nodes m =
     (if nodes = [] then (m, None)
      else if replicas m = 0 then (m, Some PanicDivideByZero)
      else
        (let segmentLen = segment_len (replicas m);
             m' = fold (add_node segmentLen) nodes m
         in (if doSort then m'\<lparr> vNodes := sort (vNodes m') \<rparr> else m', None)))"

definition Add :: "HashRing \<Rightarrow> string list \<Rightarrow> HashRing \<times> error option" where
  "Add m nodes =
     (if len_map (vnodeToNode m) + length nodes * unat (replicas m) > limitVNodes
      then (m, Some ErrRingFull)
      else add True nodes m)"

subsection \<open>Removing nodes\<close>

text \<open>
  Go leaves the order in which \<open>range\<close> visits the keys of a map unspecified.  The
  operations that range over a map take that order as an argument: a list \<open>ord\<close> in which
  the runtime would meet the keys; the loop sees the keys of the map in that order.
\<close>

definition range_keys :: "'k list \<Rightarrow> 'k set \<Rightarrow> 'k list" where
  "range_keys ord ks = filter (\<lambda>k. k \<in> ks) ord"

text \<open>An order is one the runtime can produce for a key set when it lists each key once.\<close>

definition visits :: "'k list \<Rightarrow> 'k set \<Rightarrow> bool" where
  "visits ord ks = (distinct ord \<and> ks \<subseteq> set ord)"

definition rebuildVNodeSlice :: "bool \<Rightarrow> u32 list \<Rightarrow> HashRing \<Rightarrow> HashRing" where
  "rebuildVNodeSlice doSort vord m =
     (let ks = range_keys vord (dom (vnodeToNode m))
      in m\<lparr> vNodes := (if doSort then sort ks else ks) \<rparr>)"

text \<open>The body of the loop of \<open>remove\<close>.\<close>

definition remove_node :: "string \<Rightarrow> HashRing \<Rightarrow> HashRing" where
  "remove_node node m =
     (case nodeToVnode m node of
        None \<Rightarrow> m
      | Some ps \<Rightarrow>
          m\<lparr> vnodeToNode := fold (\<lambda>vhash32 mp. mp(vhash32 := None)) ps (vnodeToNode m),
             nodeToVnode := (nodeToVnode m)(node := None) \<rparr>)"

definition remove :: "bool \<Rightarrow> u32 list \<Rightarrow> string list \<Rightarrow> HashRing \<Rightarrow> HashRing" where
  "remove doSort vord nodes m =
     (if nodes = [] then m
      else rebuildVNodeSlice doSort vord (fold remove_node nodes m))"

definition Remove :: "u32 list \<Rightarrow> HashRing \<Rightarrow> string list \<Rightarrow> HashRing" where
  "Remove vord m nodes = remove True vord nodes m"

subsection \<open>Reset, ResetAll\<close>

text \<open>
  \<open>Reset\<close> ranges over three maps: \<open>nodeToVnode\<close> (order \<open>nord\<close>), \<open>vnodeToNode\<close> inside
  \<open>remove\<close> (order \<open>vord\<close>) and the set \<open>resetNodes\<close> (order \<open>rord\<close>).
\<close>

definition Reset ::
  "string list \<Rightarrow> u32 list \<Rightarrow> string list \<Rightarrow> HashRing \<Rightarrow> string list \<Rightarrow> HashRing \<times> error option"
where
  "Reset nord vord rord m nodes =
     (if length nodes * unat (replicas m) > limitVNodes then (m, Some ErrRingFull)
      else
        (let resetNodes = set nodes;
             delNodes = filter (\<lambda>ringNode. ringNode \<notin> resetNodes)
                          (range_keys nord (dom (nodeToVnode m)));
             m1 = remove False vord delNodes m;
             addNodes = filter (\<lambda>node. nodeToVnode m1 node = None)
                          (range_keys rord resetNodes)
         in case add False addNodes m1 of
              (m2, Some e) \<Rightarrow> (m2, Some e)
            | (m2, None) \<Rightarrow>
                (if delNodes \<noteq> [] \<or> addNodes \<noteq> []
                 then (m2\<lparr> vNodes := sort (vNodes m2) \<rparr>, None)
                 else (m2, None))))"

definition clear :: "HashRing \<Rightarrow> HashRing" where
  "clear m =
     m\<lparr> HashFunc := ChecksumIEEE,
        replicas := defaultReplicas,
        vNodes := [],
        vnodeToNode := Map.empty,
        nodeToVnode := Map.empty \<rparr>"

definition ResetAll ::
  "HashRing \<Rightarrow> u16 \<Rightarrow> Hash32 option \<Rightarrow> string list \<Rightarrow> HashRing \<times> error option"
where
  "ResetAll m r hash nodes =
     (let m1 = clear m;
          m2 = (if r \<ge> miniReplicas then m1\<lparr> replicas := r \<rparr> else m1);
          m3 = (case hash of None \<Rightarrow> m2 | Some h \<Rightarrow> m2\<lparr> HashFunc := h \<rparr>)
      in if length nodes * unat (replicas m3) > limitVNodes then (m3, Some ErrRingFull)
         else add True nodes m3)"

subsection \<open>Lookup\<close>

text \<open>
  \<open>Get\<close>.  Reading a missing key of \<open>vnodeToNode\<close> yields the empty string; indexing
  \<open>vNodes\<close> out of range panics.
\<close>

definition Get :: "HashRing \<Rightarrow> string \<Rightarrow> error + string" where
  "Get m key =
     (if len_map (vnodeToNode m) = 0 then Inl ErrRingEmpty
      else
        (let u32Hash = HashFunc m key;
             idx = Search (length (vNodes m)) (\<lambda>i. vNodes m ! i \<ge> u32Hash);
             idx = (if idx = length (vNodes m) then 0 else idx)
         in if idx < length (vNodes m)
            then Inr (case vnodeToNode m (vNodes m ! idx) of None \<Rightarrow> [] | Some node \<Rightarrow> node)
            else Inl PanicIndexOutOfRange))"

subsection \<open>Segments\<close>

text \<open>
  Position \<open>p\<close> lies in segment \<open>i\<close> of a ring of \<open>r\<close> replicas: segment \<open>i\<close> is the
  half-open interval that starts at \<open>i\<close> times the segment length.
\<close>

definition in_segment :: "u16 \<Rightarrow> nat \<Rightarrow> u32 \<Rightarrow> bool" where
  "in_segment r i p \<longleftrightarrow>
     i * (4294967295 div unat r) \<le> unat p \<and> unat p < (i + 1) * (4294967295 div unat r)"

text \<open>
  Position \<open>p\<close> is one of the three positions that \<open>add\<close> tries for index \<open>i\<close> of node
  \<open>n\<close>, for some index \<open>i\<close> below \<open>r\<close>, and it lies in segment \<open>i\<close>.
\<close>

definition tried_position :: "Hash32 \<Rightarrow> u16 \<Rightarrow> string \<Rightarrow> u32 \<Rightarrow> bool" where
  "tried_position H r n p \<longleftrightarrow> (\<exists>i<unat r. in_segment r i p \<and>
     (p = segment_pos (segment_len r) (of_nat i) (H (combKey n (int i))) \<or>
      p = segment_pos (segment_len r) (of_nat i)
            (segment_pos (segment_len r) (of_nat i) (H (combKey n (int i))) + 1) \<or>
      p = segment_pos (segment_len r) (of_nat i)
            (segment_pos (segment_len r) (of_nat i)
               (segment_pos (segment_len r) (of_nat i) (H (combKey n (int i))) + 1) + 1)))"

subsection \<open>Rings without collisions\<close>

text \<open>
  No two distinct nodes of \<open>S\<close> have the same first candidate for the same index, under
  the hash function and the replica count of the ring.
\<close>

definition no_collision :: "HashRing \<Rightarrow> string set \<Rightarrow> bool" where
  "no_collision m S \<longleftrightarrow>
     (\<forall>a\<in>S. \<forall>b\<in>S. a \<noteq> b \<longrightarrow>
        (\<forall>ui<replicas m.
           segment_pos (segment_len (replicas m)) ui (HashFunc m (combKey a (uint ui))) \<noteq>
           segment_pos (segment_len (replicas m)) ui (HashFunc m (combKey b (uint ui)))))"

text \<open>A ring in which every node of \<open>T\<close> sits on all its first candidates and nothing else is placed.\<close>

definition placed :: "Hash32 \<Rightarrow> u16 \<Rightarrow> string set \<Rightarrow> HashRing \<Rightarrow> bool" where
  "placed H R T m \<longleftrightarrow>
     HashFunc m = H \<and> replicas m = R \<and>
     (\<forall>p n. vnodeToNode m p = Some n \<longleftrightarrow>
        n \<in> T \<and> (\<exists>i<unat R. segment_pos (segment_len R) (of_nat i)
                     (H (combKey n (uint (of_nat i :: u16)))) = p)) \<and>
     (\<forall>n. nodeToVnode m n =
        (if n \<in> T
         then Some (map (\<lambda>i. segment_pos (segment_len R) (of_nat i)
                     (H (combKey n (uint (of_nat i :: u16))))) [0 ..< unat R])
         else None))"

subsection \<open>Operations that only append to the position sequence\<close>

text \<open>
  \<open>f\<close> never reads \<open>vNodes\<close>: whatever the sequence holds, \<open>f\<close> appends the same positions to
  it and changes the other fields in the same way.
\<close>

definition appends :: "(HashRing \<Rightarrow> HashRing) \<Rightarrow> bool" where
  "appends f \<longleftrightarrow>
     (\<forall>m. \<exists>app. \<forall>xs. f (m\<lparr> vNodes := xs \<rparr>) = (f (m\<lparr> vNodes := [] \<rparr>))\<lparr> vNodes := xs @ app \<rparr>)"

subsection \<open>Well-formed rings\<close>

text \<open>
  What the fields of a ring satisfy between operations: at least \<open>miniReplicas\<close> replicas;
  \<open>vNodes\<close> lists the keys of \<open>vnodeToNode\<close> once each; the two maps index each other;
  no node owns more positions than there are replicas.  \<open>ring_inv\<close> adds that \<open>vNodes\<close> is
  sorted, which holds whenever a public operation has returned.
\<close>

definition vnodes_ok :: "HashRing \<Rightarrow> bool" where
  "vnodes_ok m \<longleftrightarrow> distinct (vNodes m) \<and> set (vNodes m) = dom (vnodeToNode m)"

definition dual_ok :: "HashRing \<Rightarrow> bool" where
  "dual_ok m \<longleftrightarrow>
     (\<forall>p node. vnodeToNode m p = Some node \<longleftrightarrow>
        (\<exists>ps. nodeToVnode m node = Some ps \<and> p \<in> set ps))"

definition slices_ok :: "HashRing \<Rightarrow> bool" where
  "slices_ok m \<longleftrightarrow>
     (\<forall>node ps. nodeToVnode m node = Some ps \<longrightarrow> length ps \<le> unat (replicas m))"

definition ring_inv0 :: "HashRing \<Rightarrow> bool" where
  "ring_inv0 m \<longleftrightarrow>
     miniReplicas \<le> replicas m \<and> vnodes_ok m \<and> finite (dom (nodeToVnode m)) \<and>
     dual_ok m \<and> slices_ok m"

definition ring_inv :: "HashRing \<Rightarrow> bool" where
  "ring_inv m \<longleftrightarrow> ring_inv0 m \<and> sorted (vNodes m)"

text \<open>
  The rings a caller can hold: built by \<open>New\<close> and changed by the public operations, the
  runtime ranging over each map in some order that lists its keys.  An order that lists the
  keys a map has before a removal also lists, in the order the loop meets them, the keys
  that are left after it.
\<close>

inductive reachable :: "HashRing \<Rightarrow> bool" where
  reach_New: "reachable (New r hash)"
| reach_Add: "reachable m \<Longrightarrow> reachable (fst (Add m nodes))"
| reach_Remove:
    "reachable m \<Longrightarrow> visits vord (dom (vnodeToNode m)) \<Longrightarrow> reachable (Remove vord m nodes)"
| reach_Reset:
    "reachable m \<Longrightarrow> visits nord (dom (nodeToVnode m)) \<Longrightarrow>
     visits vord (dom (vnodeToNode m)) \<Longrightarrow> visits rord (set nodes) \<Longrightarrow>
     reachable (fst (Reset nord vord rord m nodes))"
| reach_ResetAll: "reachable m \<Longrightarrow> reachable (fst (ResetAll m r hash nodes))"

subsection \<open>A degenerate hash function\<close>

text \<open>
  The ring must work for any hash function, also a poor one.  The constant hash sends
  every node to the same candidates, which exercises the collision policy.
\<close>

definition zero_hash :: Hash32 where
  "zero_hash data = 0"

text \<open>A hash function that places two keys: \<open>k1\<close> just after position 0, \<open>k2\<close> at the top.\<close>

definition probe_hash :: Hash32 where
  "probe_hash data =
     (if data = ''k1'' then 1 else if data = ''k2'' then 4294967295 else 0)"

text \<open>A hash function that tells short names apart: the sum of the bytes.\<close>

definition sum_hash :: Hash32 where
  "sum_hash data = of_nat (sum_list (map of_char data))"

text \<open>A hash function that sends every key to the top of the 32-bit range.\<close>

definition max_hash :: Hash32 where
  "max_hash data = 4294967295"

subsection \<open>A long list of distinct node names\<close>

text \<open>The names \<open>b\<close>, \<open>bb\<close>, \<open>bbb\<close>, \<open>\<dots>\<close>, up to \<open>n\<close> letters.\<close>

definition many_nodes :: "nat \<Rightarrow> string list" where
  "many_nodes n = map (\<lambda>i. replicate (Suc i) CHR ''b'') [0 ..< n]"

section \<open>Properties\<close>

subsection \<open>Errors of add\<close>

lemma add_error_cases:
  "snd (add doSort nodes m) = None \<or> snd (add doSort nodes m) = Some PanicDivideByZero"
  by (simp add: add_def Let_def)

lemma add_panic_state: "snd (add doSort nodes m) \<noteq> None \<Longrightarrow> fst (add doSort nodes m) = m"
  by (simp add: add_def Let_def split: if_splits)

subsection \<open>Invariants of add\<close>

lemma vnode_pos_free: "vnode_pos sl node ui m = Some p \<Longrightarrow> vnodeToNode m p = None"
  by (auto simp: vnode_pos_def Let_def split: if_splits)

lemma add_vnode_config [simp]:
  "replicas (add_vnode sl node ui m) = replicas m"
  "HashFunc (add_vnode sl node ui m) = HashFunc m"
  by (auto simp: add_vnode_def split: option.splits)

lemma add_vnode_vnodes_ok: "vnodes_ok m \<Longrightarrow> vnodes_ok (add_vnode sl node ui m)"
  by (auto simp: add_vnode_def vnodes_ok_def dest: vnode_pos_free split: option.splits)

lemma add_vnode_dual_ok:
  assumes d: "dual_ok m"
  shows "dual_ok (add_vnode sl node ui m)"
proof (cases "vnode_pos sl node ui m")
  case None
  with d show ?thesis by (simp add: add_vnode_def)
next
  case (Some p)
  then have free: "vnodeToNode m p = None" by (rule vnode_pos_free)
  have A: "p \<notin> set ps" if "nodeToVnode m n = Some ps" for n ps
  proof
    assume "p \<in> set ps"
    with that d have "vnodeToNode m p = Some n" unfolding dual_ok_def by blast
    with free show False by simp
  qed
  let ?old = "case nodeToVnode m node of None \<Rightarrow> [] | Some ps \<Rightarrow> ps"
  have B: "(q \<in> set ?old) = (vnodeToNode m q = Some node)" for q
    using d unfolding dual_ok_def by (cases "nodeToVnode m node") auto
  show ?thesis
    unfolding dual_ok_def
  proof (intro allI)
    fix q n
    show "(vnodeToNode (add_vnode sl node ui m) q = Some n) =
          (\<exists>ps. nodeToVnode (add_vnode sl node ui m) n = Some ps \<and> q \<in> set ps)"
    proof (cases "n = node")
      case True
      then show ?thesis using Some B [of q] free by (auto simp: add_vnode_def)
    next
      case False
      then show ?thesis using Some A [of n] d
        by (auto simp: add_vnode_def dual_ok_def)
    qed
  qed
qed

lemma add_vnode_finite:
  "finite (dom (nodeToVnode m)) \<Longrightarrow> finite (dom (nodeToVnode (add_vnode sl node ui m)))"
  by (auto simp: add_vnode_def split: option.splits)

lemma add_vnode_other:
  "n \<noteq> node \<Longrightarrow> nodeToVnode (add_vnode sl node ui m) n = nodeToVnode m n"
  by (auto simp: add_vnode_def split: option.splits)

lemma add_vnode_slice:
  "nodeToVnode m node = Some ps \<Longrightarrow>
   \<exists>qs. nodeToVnode (add_vnode sl node ui m) node = Some qs \<and> length qs \<le> Suc (length ps)"
  by (auto simp: add_vnode_def split: option.splits)

lemma add_vnodes_config [simp]:
  "replicas (fold (\<lambda>i. add_vnode sl node (f i)) is m) = replicas m"
  "HashFunc (fold (\<lambda>i. add_vnode sl node (f i)) is m) = HashFunc m"
  by (induction "is" arbitrary: m) auto

lemma add_vnodes_vnodes_ok:
  "vnodes_ok m \<Longrightarrow> vnodes_ok (fold (\<lambda>i. add_vnode sl node (f i)) is m)"
  by (induction "is" arbitrary: m) (auto intro: add_vnode_vnodes_ok)

lemma add_vnodes_dual_ok:
  "dual_ok m \<Longrightarrow> dual_ok (fold (\<lambda>i. add_vnode sl node (f i)) is m)"
  by (induction "is" arbitrary: m) (auto intro: add_vnode_dual_ok)

lemma add_vnodes_finite:
  "finite (dom (nodeToVnode m)) \<Longrightarrow>
   finite (dom (nodeToVnode (fold (\<lambda>i. add_vnode sl node (f i)) is m)))"
  by (induction "is" arbitrary: m) (auto intro: add_vnode_finite)

lemma add_vnodes_other:
  "n \<noteq> node \<Longrightarrow> nodeToVnode (fold (\<lambda>i. add_vnode sl node (f i)) is m) n = nodeToVnode m n"
  by (induction "is" arbitrary: m) (auto simp: add_vnode_other)

lemma add_vnodes_slice:
  "nodeToVnode m node = Some ps \<Longrightarrow>
   \<exists>qs. nodeToVnode (fold (\<lambda>i. add_vnode sl node (f i)) is m) node = Some qs \<and>
        length qs \<le> length ps + length is"
proof (induction "is" arbitrary: m ps)
  case Nil
  then show ?case by simp
next
  case (Cons i "is")
  from add_vnode_slice [OF Cons.prems, of sl "f i"] obtain qs where
    qs: "nodeToVnode (add_vnode sl node (f i) m) node = Some qs" "length qs \<le> Suc (length ps)"
    by blast
  from Cons.IH [OF qs(1)] qs(2) show ?case by fastforce
qed

lemma add_node_config [simp]:
  "replicas (add_node sl node m) = replicas m"
  "HashFunc (add_node sl node m) = HashFunc m"
  by (auto simp: add_node_def)

lemma add_node_inv0: "ring_inv0 m \<Longrightarrow> ring_inv0 (add_node sl node m)"
proof (cases "nodeToVnode m node")
  case (Some ps)
  assume "ring_inv0 m"
  with Some show ?thesis by (simp add: add_node_def)
next
  case None
  assume inv: "ring_inv0 m"
  let ?m0 = "m\<lparr> nodeToVnode := (nodeToVnode m)(node \<mapsto> []) \<rparr>"
  let ?m' = "fold (\<lambda>i. add_vnode sl node (of_nat i)) [0 ..< unat (replicas m)] ?m0"
  have eq: "add_node sl node m = ?m'"
    using None by (simp add: add_node_def)
  have v0: "vnodes_ok ?m0" using inv by (simp add: ring_inv0_def vnodes_ok_def)
  have d0: "dual_ok ?m0" using inv None by (auto simp: ring_inv0_def dual_ok_def)
  have f0: "finite (dom (nodeToVnode ?m0))" using inv by (simp add: ring_inv0_def)
  have s0: "nodeToVnode ?m0 node = Some []" by simp
  from add_vnodes_slice [OF s0, of sl of_nat "[0 ..< unat (replicas m)]"]
  obtain qs where qs: "nodeToVnode ?m' node = Some qs" "length qs \<le> unat (replicas m)"
    by auto
  have "slices_ok ?m'"
    unfolding slices_ok_def
  proof (intro allI impI)
    fix n ps assume a: "nodeToVnode ?m' n = Some ps"
    show "length ps \<le> unat (replicas ?m')"
    proof (cases "n = node")
      case True
      with a qs show ?thesis by simp
    next
      case False
      with a have "nodeToVnode m n = Some ps" by (simp add: add_vnodes_other)
      with inv show ?thesis by (simp add: ring_inv0_def slices_ok_def)
    qed
  qed
  moreover have "vnodes_ok ?m'" by (rule add_vnodes_vnodes_ok [OF v0])
  moreover have "dual_ok ?m'" by (rule add_vnodes_dual_ok [OF d0])
  moreover have "finite (dom (nodeToVnode ?m'))" by (rule add_vnodes_finite [OF f0])
  moreover have "miniReplicas \<le> replicas ?m'" using inv by (simp add: ring_inv0_def)
  ultimately show ?thesis unfolding eq ring_inv0_def by blast
qed

lemma add_nodes_config [simp]:
  "replicas (fold (add_node sl) nodes m) = replicas m"
  "HashFunc (fold (add_node sl) nodes m) = HashFunc m"
  by (induction nodes arbitrary: m) auto

lemma add_nodes_inv0: "ring_inv0 m \<Longrightarrow> ring_inv0 (fold (add_node sl) nodes m)"
  by (induction nodes arbitrary: m) (auto intro: add_node_inv0)

lemma ring_inv0_sort: "ring_inv0 m \<Longrightarrow> ring_inv (m\<lparr> vNodes := sort (vNodes m) \<rparr>)"
  by (simp add: ring_inv_def ring_inv0_def vnodes_ok_def dual_ok_def slices_ok_def)

lemma ring_inv_sort: "ring_inv m \<Longrightarrow> m\<lparr> vNodes := sort (vNodes m) \<rparr> = m"
  by (simp add: ring_inv_def sort_key_id_if_sorted)

lemma replicas_nonzero: "miniReplicas \<le> replicas m \<Longrightarrow> replicas m \<noteq> 0"
  by (auto simp: miniReplicas_def)

lemma add_inv0: "ring_inv0 m \<Longrightarrow> ring_inv0 (fst (add doSort nodes m))"
  using ring_inv0_sort [of "fold (add_node (segment_len (replicas m))) nodes m"]
  by (auto simp: add_def Let_def add_nodes_inv0 ring_inv_def)

lemma add_True_inv: "ring_inv m \<Longrightarrow> ring_inv (fst (add True nodes m))"
  using ring_inv0_sort [of "fold (add_node (segment_len (replicas m))) nodes m"]
  by (auto simp: add_def Let_def add_nodes_inv0 ring_inv_def)

lemma add_no_panic: "ring_inv0 m \<Longrightarrow> snd (add doSort nodes m) = None"
  by (auto simp: add_def Let_def ring_inv0_def dest: replicas_nonzero)

lemma Add_inv: "ring_inv m \<Longrightarrow> ring_inv (fst (Add m nodes))"
  by (simp add: Add_def add_True_inv)


subsection \<open>Invariants of remove\<close>

lemma fold_delete:
  "fold (\<lambda>p mp. mp(p := None)) ps mp q = (if q \<in> set ps then None else mp q)"
  by (induction ps arbitrary: mp) auto

lemma remove_node_config [simp]:
  "replicas (remove_node node m) = replicas m"
  "HashFunc (remove_node node m) = HashFunc m"
  "vNodes (remove_node node m) = vNodes m"
  by (auto simp: remove_node_def split: option.splits)

lemma remove_node_vnodeToNode:
  "vnodeToNode (remove_node node m) q =
     (case nodeToVnode m node of None \<Rightarrow> vnodeToNode m q
      | Some ps \<Rightarrow> if q \<in> set ps then None else vnodeToNode m q)"
  by (simp add: remove_node_def fold_delete split: option.splits)

lemma remove_node_nodeToVnode:
  "nodeToVnode (remove_node node m) = (nodeToVnode m)(node := None)"
  by (auto simp: remove_node_def split: option.splits)

lemma remove_node_dual_ok:
  assumes d: "dual_ok m"
  shows "dual_ok (remove_node node m)"
proof (cases "nodeToVnode m node")
  case None
  with d show ?thesis by (simp add: remove_node_def)
next
  case (Some ps)
  have A: "(q \<in> set ps) = (vnodeToNode m q = Some node)" for q
    using d Some unfolding dual_ok_def by auto
  show ?thesis
    unfolding dual_ok_def
  proof (intro allI)
    fix q n
    show "(vnodeToNode (remove_node node m) q = Some n) =
          (\<exists>ps. nodeToVnode (remove_node node m) n = Some ps \<and> q \<in> set ps)"
    proof (cases "n = node")
      case True
      then show ?thesis using Some A [of q]
        by (auto simp: remove_node_vnodeToNode remove_node_nodeToVnode)
    next
      case False
      have C: "(\<exists>ps'. nodeToVnode m n = Some ps' \<and> q \<in> set ps') = (vnodeToNode m q = Some n)"
        using d unfolding dual_ok_def by blast
      from False show ?thesis using Some A [of q] C
        by (auto simp: remove_node_vnodeToNode remove_node_nodeToVnode)
    qed
  qed
qed

lemma remove_node_dom_subset:
  "dom (vnodeToNode (remove_node node m)) \<subseteq> dom (vnodeToNode m)"
  by (auto simp: remove_node_vnodeToNode split: option.splits if_splits)

lemma remove_nodes_config [simp]:
  "replicas (fold remove_node nodes m) = replicas m"
  "HashFunc (fold remove_node nodes m) = HashFunc m"
  "vNodes (fold remove_node nodes m) = vNodes m"
  by (induction nodes arbitrary: m) auto

lemma remove_nodes_dual_ok: "dual_ok m \<Longrightarrow> dual_ok (fold remove_node nodes m)"
  by (induction nodes arbitrary: m) (auto intro: remove_node_dual_ok)

lemma remove_nodes_dom_subset:
  "dom (vnodeToNode (fold remove_node nodes m)) \<subseteq> dom (vnodeToNode m)"
proof (induction nodes arbitrary: m)
  case Nil
  then show ?case by simp
next
  case (Cons n nodes)
  show ?case using Cons.IH [of "remove_node n m"] remove_node_dom_subset [of n m] by auto
qed

lemma remove_nodes_nodeToVnode:
  "nodeToVnode (fold remove_node nodes m) = (\<lambda>n. if n \<in> set nodes then None else nodeToVnode m n)"
  by (induction nodes arbitrary: m) (auto simp: remove_node_nodeToVnode fun_eq_iff)

lemma rebuild_vnodes_ok:
  "visits vord ks \<Longrightarrow> dom (vnodeToNode m) \<subseteq> ks \<Longrightarrow> vnodes_ok (rebuildVNodeSlice doSort vord m)"
  by (auto simp: rebuildVNodeSlice_def vnodes_ok_def range_keys_def visits_def Let_def)

lemma rebuild_fields [simp]:
  "replicas (rebuildVNodeSlice doSort vord m) = replicas m"
  "HashFunc (rebuildVNodeSlice doSort vord m) = HashFunc m"
  "vnodeToNode (rebuildVNodeSlice doSort vord m) = vnodeToNode m"
  "nodeToVnode (rebuildVNodeSlice doSort vord m) = nodeToVnode m"
  by (auto simp: rebuildVNodeSlice_def Let_def)

lemma rebuild_sorted: "sorted (vNodes (rebuildVNodeSlice True vord m))"
  by (simp add: rebuildVNodeSlice_def Let_def)

lemma remove_config [simp]:
  "replicas (remove doSort vord nodes m) = replicas m"
  "HashFunc (remove doSort vord nodes m) = HashFunc m"
  by (auto simp: remove_def)

lemma remove_maps:
  "vnodeToNode (remove doSort vord nodes m) = vnodeToNode (fold remove_node nodes m)"
  "nodeToVnode (remove doSort vord nodes m) = nodeToVnode (fold remove_node nodes m)"
  by (auto simp: remove_def)

lemma remove_inv0:
  assumes inv: "ring_inv0 m" and vis: "visits vord (dom (vnodeToNode m))"
  shows "ring_inv0 (remove doSort vord nodes m)"
proof (cases "nodes = []")
  case True
  with inv show ?thesis by (simp add: remove_def)
next
  case False
  let ?m1 = "fold remove_node nodes m"
  have "vnodes_ok (rebuildVNodeSlice doSort vord ?m1)"
    by (rule rebuild_vnodes_ok [OF vis remove_nodes_dom_subset])
  moreover have "dual_ok (rebuildVNodeSlice doSort vord ?m1)"
    using remove_nodes_dual_ok [of m nodes] inv by (simp add: dual_ok_def ring_inv0_def)
  moreover have "finite (dom (nodeToVnode ?m1))"
    using inv by (auto simp: ring_inv0_def remove_nodes_nodeToVnode dom_def
        intro: rev_finite_subset)
  moreover have "slices_ok (rebuildVNodeSlice doSort vord ?m1)"
    using inv by (auto simp: ring_inv0_def slices_ok_def remove_nodes_nodeToVnode split: if_splits)
  ultimately show ?thesis using inv False by (simp add: remove_def ring_inv0_def)
qed

lemma remove_True_inv:
  assumes inv: "ring_inv m" and vis: "visits vord (dom (vnodeToNode m))"
  shows "ring_inv (remove True vord nodes m)"
proof (cases "nodes = []")
  case True
  with inv show ?thesis by (simp add: remove_def)
next
  case False
  then have "sorted (vNodes (remove True vord nodes m))"
    by (simp add: remove_def rebuild_sorted)
  with remove_inv0 [OF _ vis, of True nodes] inv show ?thesis by (simp add: ring_inv_def)
qed

subsection \<open>Invariants of New, Reset and ResetAll\<close>

lemma New_inv: "ring_inv (New r hash)"
  by (auto simp: New_def ring_inv_def ring_inv0_def vnodes_ok_def dual_ok_def slices_ok_def
      miniReplicas_def defaultReplicas_def not_less)

lemma clear_eq: "clear m = New 0 None"
  by (simp add: clear_def New_def miniReplicas_def)

lemma ResetAll_config:
  "(case hash of None \<Rightarrow> (if r \<ge> miniReplicas then (clear m)\<lparr> replicas := r \<rparr> else clear m)
    | Some h \<Rightarrow> (if r \<ge> miniReplicas then (clear m)\<lparr> replicas := r \<rparr> else clear m)
        \<lparr> HashFunc := h \<rparr>) = New r hash"
  by (auto simp: clear_eq New_def not_le miniReplicas_def split: option.splits)

lemma ResetAll_eq:
  "ResetAll m r hash nodes =
     (if length nodes * unat (replicas (New r hash)) > limitVNodes
      then (New r hash, Some ErrRingFull) else add True nodes (New r hash))"
  unfolding ResetAll_def Let_def ResetAll_config ..

lemma ResetAll_inv: "ring_inv (fst (ResetAll m r hash nodes))"
  using add_True_inv [OF New_inv, of nodes r hash] New_inv [of r hash]
  by (simp add: ResetAll_eq)

lemma Reset_unfold:
  "\<not> length nodes * unat (replicas m) > limitVNodes \<Longrightarrow>
   delNodes = filter (\<lambda>ringNode. ringNode \<notin> set nodes) (range_keys nord (dom (nodeToVnode m))) \<Longrightarrow>
   m1 = remove False vord delNodes m \<Longrightarrow>
   addNodes = filter (\<lambda>node. nodeToVnode m1 node = None) (range_keys rord (set nodes)) \<Longrightarrow>
   Reset nord vord rord m nodes =
     (case add False addNodes m1 of
        (m2, Some e) \<Rightarrow> (m2, Some e)
      | (m2, None) \<Rightarrow>
          (if delNodes \<noteq> [] \<or> addNodes \<noteq> []
           then (m2\<lparr> vNodes := sort (vNodes m2) \<rparr>, None)
           else (m2, None)))"
  by (simp only: Reset_def Let_def if_False)

lemma Reset_inv:
  assumes inv: "ring_inv m" and vis: "visits vord (dom (vnodeToNode m))"
  shows "ring_inv (fst (Reset nord vord rord m nodes))"
proof (cases "length nodes * unat (replicas m) > limitVNodes")
  case True
  with inv show ?thesis by (simp add: Reset_def)
next
  case False
  define delNodes where
    "delNodes = filter (\<lambda>ringNode. ringNode \<notin> set nodes) (range_keys nord (dom (nodeToVnode m)))"
  define m1 where "m1 = remove False vord delNodes m"
  define addNodes where
    "addNodes = filter (\<lambda>node. nodeToVnode m1 node = None) (range_keys rord (set nodes))"
  have inv1: "ring_inv0 m1"
    unfolding m1_def using inv vis by (auto intro: remove_inv0 simp: ring_inv_def)
  have np: "snd (add False addNodes m1) = None" by (rule add_no_panic [OF inv1])
  have inv2: "ring_inv0 (fst (add False addNodes m1))" by (rule add_inv0 [OF inv1])
  obtain m2 where m2: "add False addNodes m1 = (m2, None)"
    using np by (cases "add False addNodes m1") auto
  have R: "fst (Reset nord vord rord m nodes) =
     (if delNodes \<noteq> [] \<or> addNodes \<noteq> [] then m2\<lparr> vNodes := sort (vNodes m2) \<rparr> else m2)"
    unfolding Reset_unfold [OF False delNodes_def m1_def addNodes_def] m2 by simp
  show ?thesis
  proof (cases "delNodes \<noteq> [] \<or> addNodes \<noteq> []")
    case True
    with R ring_inv0_sort [of m2] inv2 m2 show ?thesis by simp
  next
    case False
    then have "m2 = m"
      using m2 by (simp add: add_def m1_def remove_def)
    with R False inv show ?thesis by simp
  qed
qed

lemma reachable_inv: "reachable m \<Longrightarrow> ring_inv m"
proof (induction rule: reachable.induct)
  case (reach_New r hash)
  show ?case by (rule New_inv)
next
  case (reach_Add m nodes)
  then show ?case by (simp add: Add_inv)
next
  case (reach_Remove m vord nodes)
  then show ?case by (simp add: Remove_def remove_True_inv)
next
  case (reach_Reset m nord vord rord nodes)
  then show ?case by (simp add: Reset_inv)
next
  case (reach_ResetAll m r hash nodes)
  show ?case by (rule ResetAll_inv)
qed

subsection \<open>Fields, membership and size after add\<close>

lemma add_fields:
  "HashFunc (fst (add doSort nodes m)) = HashFunc m"
  "replicas (fst (add doSort nodes m)) = replicas m"
  by (simp_all add: add_def Let_def)

lemma add_maps:
  "replicas m \<noteq> 0 \<Longrightarrow>
   vnodeToNode (fst (add doSort nodes m)) =
     vnodeToNode (fold (add_node (segment_len (replicas m))) nodes m)"
  "replicas m \<noteq> 0 \<Longrightarrow>
   nodeToVnode (fst (add doSort nodes m)) =
     nodeToVnode (fold (add_node (segment_len (replicas m))) nodes m)"
  by (simp_all add: add_def Let_def)

lemma add_node_dom:
  "dom (nodeToVnode (add_node L node m)) = insert node (dom (nodeToVnode m))"
proof (cases "nodeToVnode m node")
  case (Some ps)
  then show ?thesis by (auto simp: add_node_def)
next
  case None
  let ?m0 = "m\<lparr> nodeToVnode := (nodeToVnode m)(node \<mapsto> []) \<rparr>"
  let ?m' = "fold (\<lambda>i. add_vnode L node (of_nat i)) [0 ..< unat (replicas m)] ?m0"
  have eq: "add_node L node m = ?m'" using None by (simp add: add_node_def)
  have "nodeToVnode ?m0 node = Some []" by simp
  from add_vnodes_slice [OF this, of L of_nat "[0 ..< unat (replicas m)]"]
  have a: "node \<in> dom (nodeToVnode ?m')" by auto
  have b: "nodeToVnode ?m' n = nodeToVnode m n" if "n \<noteq> node" for n
    using that by (simp add: add_vnodes_other)
  show ?thesis
    unfolding eq using a b by (auto simp: domIff) metis+
qed

lemma add_nodes_dom:
  "dom (nodeToVnode (fold (add_node L) nodes m)) = dom (nodeToVnode m) \<union> set nodes"
  by (induction nodes arbitrary: m) (auto simp: add_node_dom)

lemma Add_fields:
  "replicas (fst (Add m nodes)) = replicas m"
  "HashFunc (fst (Add m nodes)) = HashFunc m"
  by (simp_all add: Add_def add_fields)

lemma Add_dom:
  "snd (Add m nodes) = None \<Longrightarrow>
   dom (nodeToVnode (fst (Add m nodes))) = dom (nodeToVnode m) \<union> set nodes"
  by (auto simp: Add_def add_def Let_def add_nodes_dom split: if_splits)

lemma Add_full:
  "limitVNodes < len_map (vnodeToNode m) + length nodes * unat (replicas m) \<Longrightarrow>
   Add m nodes = (m, Some ErrRingFull)"
  by (simp add: Add_def)

lemma len_map_bound:
  assumes d: "dual_ok m" and sl: "slices_ok m" and fin: "finite (dom (nodeToVnode m))"
  shows "len_map (vnodeToNode m) \<le> card (dom (nodeToVnode m)) * unat (replicas m)"
proof -
  let ?A = "\<lambda>n. set (the (nodeToVnode m n))"
  have "dom (vnodeToNode m) = (\<Union>n\<in>dom (nodeToVnode m). ?A n)"
  proof (intro set_eqI iffI)
    fix p assume "p \<in> dom (vnodeToNode m)"
    then obtain n where "vnodeToNode m p = Some n" by auto
    with d obtain ps where "nodeToVnode m n = Some ps" "p \<in> set ps"
      unfolding dual_ok_def by blast
    then show "p \<in> (\<Union>n\<in>dom (nodeToVnode m). ?A n)" by force
  next
    fix p assume "p \<in> (\<Union>n\<in>dom (nodeToVnode m). ?A n)"
    then obtain n ps where "nodeToVnode m n = Some ps" "p \<in> set ps" by auto
    with d have "vnodeToNode m p = Some n" unfolding dual_ok_def by blast
    then show "p \<in> dom (vnodeToNode m)" by auto
  qed
  then have "len_map (vnodeToNode m) = card (\<Union>n\<in>dom (nodeToVnode m). ?A n)"
    by (simp add: len_map_def)
  also have "\<dots> \<le> (\<Sum>n\<in>dom (nodeToVnode m). card (?A n))"
    by (rule card_UN_le [OF fin])
  also have "\<dots> \<le> of_nat (card (dom (nodeToVnode m))) * unat (replicas m)"
  proof (rule sum_bounded_above)
    fix n assume "n \<in> dom (nodeToVnode m)"
    then obtain ps where ps: "nodeToVnode m n = Some ps" by auto
    with sl have "length ps \<le> unat (replicas m)" unfolding slices_ok_def by blast
    moreover have "card (set ps) \<le> length ps" by (rule card_length)
    ultimately show "card (?A n) \<le> unat (replicas m)" using ps by simp
  qed
  finally show ?thesis by simp
qed

subsection \<open>Nodes that are already members\<close>

lemma add_node_member: "nodeToVnode m node \<noteq> None \<Longrightarrow> add_node sl node m = m"
  by (simp add: add_node_def)

lemma add_nodes_members:
  "set nodes \<subseteq> dom (nodeToVnode m) \<Longrightarrow> fold (add_node sl) nodes m = m"
  by (induction nodes) (auto simp: add_node_member)

lemma add_members:
  "set nodes \<subseteq> dom (nodeToVnode m) \<Longrightarrow> sorted (vNodes m) \<Longrightarrow> add True nodes m = (m, None) \<or> add True nodes m = (m, Some PanicDivideByZero)"
  by (simp add: add_def Let_def add_nodes_members sort_key_id_if_sorted)

subsection \<open>Concrete rings\<close>

text \<open>
  Rings of two replicas under the constant hash, computed by unfolding the operations.
  Nodes \<open>a\<close>, \<open>b\<close> and \<open>c\<close> take the three candidates of each segment; \<open>d\<close> gets none.
\<close>

lemmas add_eval = Add_def add_def New_def miniReplicas_def add_node_def add_vnode_def
  vnode_pos_def segment_pos_def segment_len_def numHash_def zero_hash_def Let_def
  upt_conv_Cons len_map_def limitVNodes_def

lemma ring_a:
  "Add (New 2 (Some zero_hash)) [''a''] =
    (\<lparr> HashFunc = zero_hash, replicas = 2, vNodes = [0, 2147483647],
       vnodeToNode = [0 \<mapsto> ''a'', 2147483647 \<mapsto> ''a''],
       nodeToVnode = [''a'' \<mapsto> [0, 2147483647]] \<rparr>, None)"
  by (simp add: add_eval)

lemma ring_a_max:
  "Add (New 2 (Some max_hash)) [''a''] =
    (\<lparr> HashFunc = max_hash, replicas = 2, vNodes = [2130706030, 4278189677],
       vnodeToNode = [2130706030 \<mapsto> ''a'', 4278189677 \<mapsto> ''a''],
       nodeToVnode = [''a'' \<mapsto> [2130706030, 4278189677]] \<rparr>, None)"
  by (simp add: add_eval max_hash_def)

lemma ring_abcd:
  "Add (New 2 (Some zero_hash)) [''a'', ''b'', ''c'', ''d''] =
    (\<lparr> HashFunc = zero_hash, replicas = 2,
       vNodes = [0, 16777619, 654474236, 2147483647, 2147483648, 2164261267],
       vnodeToNode = [0 \<mapsto> ''a'', 2147483647 \<mapsto> ''a'', 16777619 \<mapsto> ''b'',
         2147483648 \<mapsto> ''b'', 654474236 \<mapsto> ''c'', 2164261267 \<mapsto> ''c''],
       nodeToVnode = [''a'' \<mapsto> [0, 2147483647], ''b'' \<mapsto> [16777619, 2147483648],
         ''c'' \<mapsto> [654474236, 2164261267], ''d'' \<mapsto> []] \<rparr>, None)"
  by (simp add: add_eval)

lemma ring_d:
  "Remove [0, 16777619, 654474236, 2147483647, 2147483648, 2164261267]
     (fst (Add (New 2 (Some zero_hash)) [''a'', ''b'', ''c'', ''d''])) [''a'', ''b'', ''c''] =
    \<lparr> HashFunc = zero_hash, replicas = 2, vNodes = [],
       vnodeToNode = Map.empty, nodeToVnode = [''d'' \<mapsto> []] \<rparr>"
  unfolding ring_abcd
  by (simp add: Remove_def remove_def remove_node_def rebuildVNodeSlice_def range_keys_def
      fun_eq_iff)

lemma ring_ab_probe:
  "Add (New 2 (Some probe_hash)) [''a'', ''b''] =
    (\<lparr> HashFunc = probe_hash, replicas = 2,
       vNodes = [0, 16777619, 2147483647, 2147483648],
       vnodeToNode = [0 \<mapsto> ''a'', 2147483647 \<mapsto> ''a'', 16777619 \<mapsto> ''b'',
         2147483648 \<mapsto> ''b''],
       nodeToVnode = [''a'' \<mapsto> [0, 2147483647], ''b'' \<mapsto> [16777619, 2147483648]] \<rparr>, None)"
  by (simp add: add_eval probe_hash_def combKey_def Itoa_def udigits.simps)


lemma ring_ab:
  "Add (New 2 (Some zero_hash)) [''a'', ''b''] =
    (\<lparr> HashFunc = zero_hash, replicas = 2,
       vNodes = [0, 16777619, 2147483647, 2147483648],
       vnodeToNode = [0 \<mapsto> ''a'', 2147483647 \<mapsto> ''a'', 16777619 \<mapsto> ''b'',
         2147483648 \<mapsto> ''b''],
       nodeToVnode = [''a'' \<mapsto> [0, 2147483647], ''b'' \<mapsto> [16777619, 2147483648]] \<rparr>, None)"
  by (simp add: add_eval)

lemma ring_ba:
  "Add (New 2 (Some zero_hash)) [''b'', ''a''] =
    (\<lparr> HashFunc = zero_hash, replicas = 2,
       vNodes = [0, 16777619, 2147483647, 2147483648],
       vnodeToNode = [0 \<mapsto> ''b'', 2147483647 \<mapsto> ''b'', 16777619 \<mapsto> ''a'',
         2147483648 \<mapsto> ''a''],
       nodeToVnode = [''b'' \<mapsto> [0, 2147483647], ''a'' \<mapsto> [16777619, 2147483648]] \<rparr>, None)"
  by (simp add: add_eval)

text \<open>A ring of 65535 replicas that holds node \<open>a\<close>, known by its properties.\<close>

lemma ring65:
  "replicas (fst (Add (New 65535 (Some zero_hash)) [''a''])) = 65535"
  "dom (nodeToVnode (fst (Add (New 65535 (Some zero_hash)) [''a'']))) = {''a''}"
  "reachable (fst (Add (New 65535 (Some zero_hash)) [''a'']))"
  "len_map (vnodeToNode (fst (Add (New 65535 (Some zero_hash)) [''a'']))) \<le> 65535"
proof -
  let ?A = "fst (Add (New 65535 (Some zero_hash)) [''a''])"
  show r: "replicas ?A = 65535" by (simp add: Add_fields) (simp add: New_def miniReplicas_def)
  have "snd (Add (New 65535 (Some zero_hash)) [''a'']) = None"
    by (simp add: Add_def add_def Let_def)
      (simp add: New_def miniReplicas_def len_map_def limitVNodes_def)
  from Add_dom [OF this] show d: "dom (nodeToVnode ?A) = {''a''}" by (simp add: New_def)
  show re: "reachable ?A" by (intro reach_Add reach_New)
  from reachable_inv [OF re] have "dual_ok ?A" "slices_ok ?A" "finite (dom (nodeToVnode ?A))"
    by (simp_all add: ring_inv_def ring_inv0_def)
  from len_map_bound [OF this] show "len_map (vnodeToNode ?A) \<le> 65535"
    unfolding d r by simp
qed

subsection \<open>The state after a "ring full" error\<close>

text \<open>
  C1 (as amended).  When \<open>Add\<close> or \<open>Reset\<close> returns \<open>ErrRingFull\<close>, the ring is exactly
  the ring before the call.  When \<open>ResetAll\<close> returns \<open>ErrRingFull\<close>, the ring has already
  been cleared and given the new configuration: it is the ring that \<open>New\<close> builds from the
  arguments, whatever it held before.
\<close>

theorem ring_full_state:
  "(snd (Add m nodes) = Some ErrRingFull \<longrightarrow> fst (Add m nodes) = m) \<and>
   (snd (Reset nord vord rord m nodes) = Some ErrRingFull \<longrightarrow>
      fst (Reset nord vord rord m nodes) = m) \<and>
   (snd (ResetAll m r hash nodes) = Some ErrRingFull \<longrightarrow>
      fst (ResetAll m r hash nodes) = New r hash)"
proof (intro conjI impI)
  assume "snd (Add m nodes) = Some ErrRingFull"
  then show "fst (Add m nodes) = m"
    using add_error_cases [of True nodes m] by (auto simp: Add_def split: if_splits)
next
  assume "snd (Reset nord vord rord m nodes) = Some ErrRingFull"
  then show "fst (Reset nord vord rord m nodes) = m"
    using add_error_cases
    by (auto simp: Reset_def Let_def add_def split: if_splits prod.splits option.splits)
next
  assume "snd (ResetAll m r hash nodes) = Some ErrRingFull"
  then show "fst (ResetAll m r hash nodes) = New r hash"
    using add_error_cases
    by (auto simp: ResetAll_def Let_def New_def clear_def add_def not_le
        split: if_splits option.splits)
qed

theorem ring_full_state_witness:
  "snd (Add (New 65535 (Some zero_hash)) (replicate 16385 ''a'')) = Some ErrRingFull \<and>
   fst (Add (New 65535 (Some zero_hash)) (replicate 16385 ''a'')) = New 65535 (Some zero_hash) \<and>
   snd (Reset [] [] [''a''] (New 65535 (Some zero_hash)) (replicate 16385 ''a''))
     = Some ErrRingFull \<and>
   fst (Reset [] [] [''a''] (New 65535 (Some zero_hash)) (replicate 16385 ''a''))
     = New 65535 (Some zero_hash) \<and>
   snd (ResetAll (New 2 None) 65535 (Some zero_hash) (replicate 16385 ''a''))
     = Some ErrRingFull \<and>
   fst (ResetAll (New 2 None) 65535 (Some zero_hash) (replicate 16385 ''a''))
     = New 65535 (Some zero_hash)"
  using ring_full_state [of "New 65535 (Some zero_hash)" "replicate 16385 ''a''" "[]" "[]"
      "[''a'']" 65535 "Some zero_hash"]
    ring_full_state [of "New 2 None" "replicate 16385 ''a''" "[]" "[]" "[''a'']"
      65535 "Some zero_hash"]
  by (simp add: Add_def Reset_def ResetAll_def New_def clear_def limitVNodes_def len_map_def
      miniReplicas_def)

text \<open>
  C1 as stated fails for \<open>ResetAll\<close>: on a ring of two replicas holding node \<open>a\<close>, a
  \<open>ResetAll\<close> with 65535 replicas and 16385 node names returns \<open>ErrRingFull\<close> and leaves
  an empty ring.
\<close>

theorem ResetAll_ring_full_counterexample:
  "snd (ResetAll (fst (Add (New 2 (Some zero_hash)) [''a''])) 65535 None (replicate 16385 ''b''))
     = Some ErrRingFull \<and>
   fst (ResetAll (fst (Add (New 2 (Some zero_hash)) [''a''])) 65535 None (replicate 16385 ''b''))
     \<noteq> fst (Add (New 2 (Some zero_hash)) [''a'']) \<and>
   dom (nodeToVnode (fst (Add (New 2 (Some zero_hash)) [''a'']))) = {''a''} \<and>
   dom (nodeToVnode
     (fst (ResetAll (fst (Add (New 2 (Some zero_hash)) [''a''])) 65535 None
        (replicate 16385 ''b'')))) = {}"
  unfolding ring_a
  by (simp add: ResetAll_def clear_def miniReplicas_def limitVNodes_def)

subsection \<open>The position sequence and the position map\<close>

text \<open>
  C3.  On every ring built by \<open>New\<close> and changed by \<open>Add\<close>, \<open>Remove\<close>, \<open>Reset\<close> and
  \<open>ResetAll\<close>, \<open>vNodes\<close> is sorted in ascending order and has no duplicate, its elements are
  exactly the keys of \<open>vnodeToNode\<close>, the two have the same length, and every position maps
  to exactly one node.
\<close>

theorem positions_sorted_indexed:
  assumes "reachable m"
  shows "sorted (vNodes m) \<and> distinct (vNodes m) \<and>
         set (vNodes m) = dom (vnodeToNode m) \<and>
         length (vNodes m) = len_map (vnodeToNode m) \<and>
         (\<forall>p \<in> set (vNodes m). \<exists>!node. vnodeToNode m p = Some node)"
proof -
  from assms have inv: "ring_inv m" by (rule reachable_inv)
  then have s: "sorted (vNodes m)" and d: "distinct (vNodes m)"
    and e: "set (vNodes m) = dom (vnodeToNode m)"
    by (simp_all add: ring_inv_def ring_inv0_def vnodes_ok_def)
  have "length (vNodes m) = len_map (vnodeToNode m)"
    using d e distinct_card [of "vNodes m"] by (simp add: len_map_def)
  moreover have "\<forall>p \<in> set (vNodes m). \<exists>!node. vnodeToNode m p = Some node"
    using e by auto
  ultimately show ?thesis using s d e by blast
qed

theorem positions_sorted_indexed_witness:
  "reachable (Remove [0, 16777619, 654474236, 2147483647, 2147483648, 2164261267]
     (fst (Add (New 2 (Some zero_hash)) [''a'', ''b'', ''c'', ''d''])) [''a'', ''c'']) \<and>
   vNodes (Remove [0, 16777619, 654474236, 2147483647, 2147483648, 2164261267]
     (fst (Add (New 2 (Some zero_hash)) [''a'', ''b'', ''c'', ''d''])) [''a'', ''c''])
     = [16777619, 2147483648] \<and>
   dom (vnodeToNode (Remove [0, 16777619, 654474236, 2147483647, 2147483648, 2164261267]
     (fst (Add (New 2 (Some zero_hash)) [''a'', ''b'', ''c'', ''d''])) [''a'', ''c'']))
     = {16777619, 2147483648}"
proof -
  let ?m = "fst (Add (New 2 (Some zero_hash)) [''a'', ''b'', ''c'', ''d''])"
  let ?vord = "[0, 16777619, 654474236, 2147483647, 2147483648, 2164261267] :: u32 list"
  have v: "visits ?vord (dom (vnodeToNode ?m))"
    unfolding ring_abcd by (simp add: visits_def)
  have r: "reachable (Remove ?vord ?m [''a'', ''c''])"
    by (intro reach_Remove reach_Add reach_New v)
  have e: "vNodes (Remove ?vord ?m [''a'', ''c'']) = [16777619, 2147483648]"
    unfolding ring_abcd
    by (simp add: Remove_def remove_def remove_node_def rebuildVNodeSlice_def range_keys_def)
  from positions_sorted_indexed [OF r] r e show ?thesis by simp
qed

subsection \<open>Adding a member again\<close>

text \<open>
  C8.  \<open>Add\<close> of a node that is already a member leaves the whole ring as it is, in
  particular the positions the node owns.  The ring's \<open>vNodes\<close> is sorted, as it is after
  every public operation; \<open>Add\<close> sorts it again.
\<close>

theorem Add_member_unchanged:
  assumes "nodeToVnode m n \<noteq> None" and "sorted (vNodes m)"
  shows "fst (Add m [n]) = m"
proof -
  from assms(1) have "set [n] \<subseteq> dom (nodeToVnode m)" by auto
  from add_members [OF this assms(2)] show ?thesis by (auto simp: Add_def)
qed

theorem Add_member_unchanged_witness:
  "nodeToVnode (fst (Add (New 2 (Some zero_hash)) [''a''])) ''a'' \<noteq> None \<and>
   sorted (vNodes (fst (Add (New 2 (Some zero_hash)) [''a'']))) \<and>
   fst (Add (fst (Add (New 2 (Some zero_hash)) [''a''])) [''a''])
     = fst (Add (New 2 (Some zero_hash)) [''a''])"
  using Add_member_unchanged [of "fst (Add (New 2 (Some zero_hash)) [''a''])" "''a''"]
  by (simp add: ring_a)

subsection \<open>The capacity check of Add\<close>

text \<open>
  C10.  \<open>Add\<close> returns \<open>ErrRingFull\<close> exactly when the number of positions in the ring plus
  the number of arguments times \<open>replicas\<close> exceeds the limit; arguments that are members
  already, and repeated arguments, count.  So on a ring below the limit, a call whose
  arguments are all members is rejected when that sum exceeds the limit, although inserting
  them would leave the ring unchanged.
\<close>

theorem Add_check_counts_members:
  "(snd (Add m nodes) = Some ErrRingFull \<longleftrightarrow>
      limitVNodes < len_map (vnodeToNode m) + length nodes * unat (replicas m)) \<and>
   (set nodes \<subseteq> dom (nodeToVnode m) \<and> sorted (vNodes m) \<and>
    len_map (vnodeToNode m) \<le> limitVNodes \<and>
    limitVNodes < len_map (vnodeToNode m) + length nodes * unat (replicas m) \<longrightarrow>
      Add m nodes = (m, Some ErrRingFull) \<and> fst (add True nodes m) = m \<and>
      len_map (vnodeToNode (fst (add True nodes m))) \<le> limitVNodes)"
proof (intro conjI impI)
  show "snd (Add m nodes) = Some ErrRingFull \<longleftrightarrow>
      limitVNodes < len_map (vnodeToNode m) + length nodes * unat (replicas m)"
    using add_error_cases [of True nodes m] by (auto simp: Add_def)
next
  assume a: "set nodes \<subseteq> dom (nodeToVnode m) \<and> sorted (vNodes m) \<and>
    len_map (vnodeToNode m) \<le> limitVNodes \<and>
    limitVNodes < len_map (vnodeToNode m) + length nodes * unat (replicas m)"
  then show "Add m nodes = (m, Some ErrRingFull)" by (simp add: Add_def)
  from a add_members [of nodes m] show "fst (add True nodes m) = m" by auto
  with a show "len_map (vnodeToNode (fst (add True nodes m))) \<le> limitVNodes" by simp
qed

theorem Add_check_counts_members_witness:
  "set (replicate 16385 ''a'')
     \<subseteq> dom (nodeToVnode (fst (Add (New 65535 (Some zero_hash)) [''a'']))) \<and>
   sorted (vNodes (fst (Add (New 65535 (Some zero_hash)) [''a'']))) \<and>
   len_map (vnodeToNode (fst (Add (New 65535 (Some zero_hash)) [''a'']))) \<le> limitVNodes \<and>
   limitVNodes < len_map (vnodeToNode (fst (Add (New 65535 (Some zero_hash)) [''a''])))
     + length (replicate 16385 ''a'')
       * unat (replicas (fst (Add (New 65535 (Some zero_hash)) [''a'']))) \<and>
   Add (fst (Add (New 65535 (Some zero_hash)) [''a''])) (replicate 16385 ''a'')
     = (fst (Add (New 65535 (Some zero_hash)) [''a'']), Some ErrRingFull) \<and>
   fst (add True (replicate 16385 ''a'') (fst (Add (New 65535 (Some zero_hash)) [''a''])))
     = fst (Add (New 65535 (Some zero_hash)) [''a''])"
proof -
  let ?A = "fst (Add (New 65535 (Some zero_hash)) [''a''])"
  let ?ns = "replicate 16385 ''a''"
  have h1: "set ?ns \<subseteq> dom (nodeToVnode ?A)" by (simp add: ring65)
  have h2: "sorted (vNodes ?A)"
    using reachable_inv [OF ring65(3)] by (simp add: ring_inv_def)
  have h3: "len_map (vnodeToNode ?A) \<le> limitVNodes"
    using ring65(4) by (simp add: limitVNodes_def)
  have h4: "limitVNodes < len_map (vnodeToNode ?A) + length ?ns * unat (replicas ?A)"
    by (simp add: ring65 limitVNodes_def)
  from Add_check_counts_members [of ?A ?ns] h1 h2 h3 h4
  have "Add ?A ?ns = (?A, Some ErrRingFull)" and "fst (add True ?ns ?A) = ?A" by blast+
  then show ?thesis by (intro conjI h1 h2 h3 h4)
qed

subsection \<open>The empty ring\<close>

text \<open>
  C9 (as amended).  On every ring a caller can hold, \<open>Get\<close> fails with \<open>ErrRingEmpty\<close>
  exactly when there is no virtual node, and a ring without registered nodes has no virtual
  node.  The converse is not claimed.
\<close>

theorem empty_ring_error:
  assumes "reachable m"
  shows "(Get m key = Inl ErrRingEmpty \<longleftrightarrow> dom (vnodeToNode m) = {}) \<and>
         (dom (nodeToVnode m) = {} \<longrightarrow> dom (vnodeToNode m) = {})"
proof -
  from assms have inv: "ring_inv m" by (rule reachable_inv)
  then have e: "set (vNodes m) = dom (vnodeToNode m)" and d: "dual_ok m"
    by (simp_all add: ring_inv_def ring_inv0_def vnodes_ok_def)
  have "finite (dom (vnodeToNode m))" using e [symmetric] by simp
  then have "len_map (vnodeToNode m) = 0 \<longleftrightarrow> dom (vnodeToNode m) = {}"
    by (simp add: len_map_def)
  then have "Get m key = Inl ErrRingEmpty \<longleftrightarrow> dom (vnodeToNode m) = {}"
    by (simp add: Get_def Let_def)
  moreover have "dom (nodeToVnode m) = {} \<longrightarrow> dom (vnodeToNode m) = {}"
    using d unfolding dual_ok_def by (metis domIff empty_iff not_Some_eq subsetI subset_antisym)
  ultimately show ?thesis by blast
qed

theorem empty_ring_error_witness:
  "reachable (New 2 None) \<and> Get (New 2 None) ''k'' = Inl ErrRingEmpty \<and>
   dom (vnodeToNode (New 2 None)) = {} \<and> dom (nodeToVnode (New 2 None)) = {}"
proof -
  have e: "dom (vnodeToNode (New 2 None)) = {}" "dom (nodeToVnode (New 2 None)) = {}"
    by (simp_all add: New_def)
  from empty_ring_error [OF reach_New, of 2 None "''k''"] e reach_New [of 2 None]
  show ?thesis by simp
qed

text \<open>
  C9 as stated fails: under the constant hash, node \<open>d\<close> joins after \<open>a\<close>, \<open>b\<close> and \<open>c\<close>
  and all its virtual nodes are dropped; once the three are removed the ring has a
  registered node and no virtual node, and \<open>Get\<close> reports an empty ring.
\<close>

theorem ghost_node_counterexample:
  "reachable (Remove [0, 16777619, 654474236, 2147483647, 2147483648, 2164261267]
     (fst (Add (New 2 (Some zero_hash)) [''a'', ''b'', ''c'', ''d''])) [''a'', ''b'', ''c'']) \<and>
   Get (Remove [0, 16777619, 654474236, 2147483647, 2147483648, 2164261267]
     (fst (Add (New 2 (Some zero_hash)) [''a'', ''b'', ''c'', ''d''])) [''a'', ''b'', ''c''])
     ''k'' = Inl ErrRingEmpty \<and>
   dom (vnodeToNode (Remove [0, 16777619, 654474236, 2147483647, 2147483648, 2164261267]
     (fst (Add (New 2 (Some zero_hash)) [''a'', ''b'', ''c'', ''d''])) [''a'', ''b'', ''c''])) = {} \<and>
   dom (nodeToVnode (Remove [0, 16777619, 654474236, 2147483647, 2147483648, 2164261267]
     (fst (Add (New 2 (Some zero_hash)) [''a'', ''b'', ''c'', ''d''])) [''a'', ''b'', ''c'']))
     = {''d''}"
proof -
  let ?m = "fst (Add (New 2 (Some zero_hash)) [''a'', ''b'', ''c'', ''d''])"
  let ?vord = "[0, 16777619, 654474236, 2147483647, 2147483648, 2164261267] :: u32 list"
  have v: "visits ?vord (dom (vnodeToNode ?m))"
    unfolding ring_abcd by (simp add: visits_def)
  have r: "reachable (Remove ?vord ?m [''a'', ''b'', ''c''])"
    by (intro reach_Remove reach_Add reach_New v)
  show ?thesis using r unfolding ring_d by (simp add: Get_def len_map_def)
qed

subsection \<open>Lookup\<close>

lemma search_loop_spec:
  "(\<And>a b. a \<le> b \<Longrightarrow> b < n \<Longrightarrow> f a \<Longrightarrow> f b) \<Longrightarrow>
         i \<le> j \<Longrightarrow> j \<le> n \<Longrightarrow> \<forall>k<i. \<not> f k \<Longrightarrow> \<forall>k. j \<le> k \<and> k < n \<longrightarrow> f k \<Longrightarrow>
         i \<le> search_loop f i j \<and> search_loop f i j \<le> j \<and>
         (\<forall>k. k < search_loop f i j \<longrightarrow> \<not> f k) \<and>
         (\<forall>k. search_loop f i j \<le> k \<and> k < n \<longrightarrow> f k)"
proof (induction f i j rule: search_loop.induct)
  case (1 f i j)
  show ?case
  proof (cases "i < j")
    case False
    then have "search_loop f i j = i" by (simp add: search_loop.simps [of f i j])
    with False "1.prems"(2-5) show ?thesis by auto
  next
    case True
    define h where "h = (i + j) div 2"
    have hb: "i \<le> h" "h < j" using True by (auto simp: h_def)
    have hn: "h \<le> n" "h < n" "h + 1 \<le> j" using hb "1.prems"(3) by auto
    have unf: "search_loop f i j = (if \<not> f h then search_loop f (h + 1) j else search_loop f i h)"
      using True by (simp add: search_loop.simps [of f i j] h_def Let_def)
    show ?thesis
    proof (cases "f h")
      case fh: True
      have eq: "search_loop f i j = search_loop f i h"
        using fh unf by simp
      have nn: "\<not> \<not> f h" using fh by simp
      have up: "\<forall>k. h \<le> k \<and> k < n \<longrightarrow> f k"
      proof (intro allI impI)
        fix k assume "h \<le> k \<and> k < n"
        then show "f k" using "1.prems"(1) [of h k] fh by simp
      qed
      have "i \<le> search_loop f i h \<and> search_loop f i h \<le> h \<and>
         (\<forall>k. k < search_loop f i h \<longrightarrow> \<not> f k) \<and>
         (\<forall>k. search_loop f i h \<le> k \<and> k < n \<longrightarrow> f k)"
      proof (rule "1.IH"(2) [OF True h_def nn])
        show "f b" if "a \<le> b" "b < n" "f a" for a b using "1.prems"(1) [OF that] .
      qed (use hb hn "1.prems"(4) up in simp_all)
      with hb show ?thesis unfolding eq by auto
    next
      case nfh: False
      have eq: "search_loop f i j = search_loop f (h + 1) j"
        using nfh unf by simp
      have lo: "\<forall>k<h + 1. \<not> f k"
      proof (intro allI impI)
        fix k assume "k < h + 1"
        then have "k \<le> h" by simp
        then show "\<not> f k" using "1.prems"(1) [of k h] nfh hn(2) by blast
      qed
      have "h + 1 \<le> search_loop f (h + 1) j \<and> search_loop f (h + 1) j \<le> j \<and>
         (\<forall>k. k < search_loop f (h + 1) j \<longrightarrow> \<not> f k) \<and>
         (\<forall>k. search_loop f (h + 1) j \<le> k \<and> k < n \<longrightarrow> f k)"
      proof (rule "1.IH"(1) [OF True h_def nfh])
        show "f b" if "a \<le> b" "b < n" "f a" for a b using "1.prems"(1) [OF that] .
      qed (use hb hn "1.prems"(3,5) lo in simp_all)
      with hb show ?thesis unfolding eq by auto
    qed
  qed
qed


lemma Search_sorted:
  fixes xs :: "u32 list" and h :: u32
  assumes "sorted xs"
  defines "r \<equiv> Search (length xs) (\<lambda>i. xs ! i \<ge> h)"
  shows "r \<le> length xs" and "\<forall>k. k < r \<longrightarrow> xs ! k < h"
    and "\<forall>k. r \<le> k \<and> k < length xs \<longrightarrow> h \<le> xs ! k"
proof -
  have "0 \<le> search_loop (\<lambda>i. xs ! i \<ge> h) 0 (length xs) \<and>
        search_loop (\<lambda>i. xs ! i \<ge> h) 0 (length xs) \<le> length xs \<and>
        (\<forall>k. k < search_loop (\<lambda>i. xs ! i \<ge> h) 0 (length xs) \<longrightarrow> \<not> xs ! k \<ge> h) \<and>
        (\<forall>k. search_loop (\<lambda>i. xs ! i \<ge> h) 0 (length xs) \<le> k \<and> k < length xs \<longrightarrow> xs ! k \<ge> h)"
  proof (rule search_loop_spec)
    show "h \<le> xs ! b" if "a \<le> b" "b < length xs" "h \<le> xs ! a" for a b
      using sorted_nth_mono [OF assms(1) that(1,2)] that(3) by simp
  qed auto
  then show "r \<le> length xs" and "\<forall>k. k < r \<longrightarrow> xs ! k < h"
    and "\<forall>k. r \<le> k \<and> k < length xs \<longrightarrow> h \<le> xs ! k"
    by (simp_all add: r_def Search_def not_le)
qed

text \<open>
  C2.  On a ring with at least one virtual node, \<open>Get\<close> hashes the key with \<open>HashFunc\<close> and
  returns the node that owns the smallest position greater than or equal to the hash (a
  position equal to the hash is that position); when no position is greater than or equal
  to the hash, it returns the node that owns the smallest position of the ring.
\<close>

theorem Get_closest_position:
  assumes "reachable m" and "dom (vnodeToNode m) \<noteq> {}"
  shows "\<exists>node. Get m key = Inr node \<and>
           vnodeToNode m
             (if \<exists>p \<in> dom (vnodeToNode m). HashFunc m key \<le> p
              then Min {p \<in> dom (vnodeToNode m). HashFunc m key \<le> p}
              else Min (dom (vnodeToNode m))) = Some node"
proof -
  from assms(1) have inv: "ring_inv m" by (rule reachable_inv)
  define xs where "xs = vNodes m"
  define h where "h = HashFunc m key"
  define r where "r = Search (length xs) (\<lambda>i. xs ! i \<ge> h)"
  define idx where "idx = (if r = length xs then 0 else r)"
  from inv have s: "sorted xs" and e: "set xs = dom (vnodeToNode m)"
    by (simp_all add: ring_inv_def ring_inv0_def vnodes_ok_def xs_def)
  have ne: "xs \<noteq> []" by (metis e assms(2) list.set(1))
  have fin: "finite (dom (vnodeToNode m))" using e [symmetric] by simp
  then have len: "len_map (vnodeToNode m) \<noteq> 0" using assms(2) by (simp add: len_map_def)
  note sp = Search_sorted [OF s, of h, folded r_def]
  have idx_lt: "idx < length xs" using sp(1) ne by (auto simp: idx_def)
  have G: "Get m key = Inr (case vnodeToNode m (xs ! idx) of None \<Rightarrow> [] | Some node \<Rightarrow> node)"
    using len idx_lt ne
    by (auto simp: Get_def Let_def xs_def [symmetric] h_def [symmetric] r_def [symmetric]
        idx_def)
  have mem: "xs ! idx \<in> dom (vnodeToNode m)" using idx_lt e nth_mem by blast
  then obtain node where node: "vnodeToNode m (xs ! idx) = Some node" by auto
  have pos: "(if \<exists>p \<in> dom (vnodeToNode m). h \<le> p
              then Min {p \<in> dom (vnodeToNode m). h \<le> p}
              else Min (dom (vnodeToNode m))) = xs ! idx"
  proof (cases "r = length xs")
    case True
    then have none: "\<not> (\<exists>p \<in> dom (vnodeToNode m). h \<le> p)"
      using sp(2) e by (metis in_set_conv_nth not_le)
    have "Min (set xs) = xs ! 0"
    proof (rule Min_eqI)
      show "xs ! 0 \<in> set xs" using ne by simp
      show "xs ! 0 \<le> y" if "y \<in> set xs" for y
        using that s by (metis in_set_conv_nth sorted_nth_mono le0)
    qed simp
    with none True e show ?thesis by (simp add: idx_def)
  next
    case False
    then have rl: "r < length xs" using sp(1) by simp
    then have hr: "h \<le> xs ! r" using sp(3) by simp
    have some: "\<exists>p \<in> dom (vnodeToNode m). h \<le> p"
      using hr rl e nth_mem by blast
    have "Min {p \<in> set xs. h \<le> p} = xs ! r"
    proof (rule Min_eqI)
      show "xs ! r \<in> {p \<in> set xs. h \<le> p}" using hr rl by simp
      show "xs ! r \<le> y" if "y \<in> {p \<in> set xs. h \<le> p}" for y
      proof -
        from that obtain k where k: "k < length xs" "xs ! k = y" "h \<le> y"
          by (auto simp: in_set_conv_nth)
        then have "r \<le> k" using sp(2) by (metis not_le)
        then show ?thesis using sorted_nth_mono [OF s _ k(1)] k(2) by simp
      qed
    qed simp
    with some False e show ?thesis by (simp add: idx_def)
  qed
  show ?thesis using G node pos [unfolded h_def] by (intro exI [of _ node]) simp
qed

theorem Get_closest_position_witness:
  "reachable (fst (Add (New 2 (Some probe_hash)) [''a'', ''b''])) \<and>
   dom (vnodeToNode (fst (Add (New 2 (Some probe_hash)) [''a'', ''b'']))) \<noteq> {} \<and>
   Get (fst (Add (New 2 (Some probe_hash)) [''a'', ''b''])) ''k1'' = Inr ''b'' \<and>
   Get (fst (Add (New 2 (Some probe_hash)) [''a'', ''b''])) ''k2'' = Inr ''a''"
proof -
  let ?m = "fst (Add (New 2 (Some probe_hash)) [''a'', ''b''])"
  have r: "reachable ?m" by (intro reach_Add reach_New)
  have ne: "dom (vnodeToNode ?m) \<noteq> {}" by (simp add: ring_ab_probe)
  have g: "Get ?m ''k1'' = Inr ''b''" "Get ?m ''k2'' = Inr ''a''"
    unfolding ring_ab_probe
    by (simp_all add: Get_def Search_def search_loop.simps probe_hash_def len_map_def)
  from Get_closest_position [OF r ne, of "''k1''"] Get_closest_position [OF r ne, of "''k2''"]
    r ne g
  show ?thesis by blast
qed

subsection \<open>Segment arithmetic\<close>

lemma segment_len_unat: "unat (segment_len r) = 4294967295 div unat r"
proof -
  have "4294967295 div unat r < (4294967296 :: nat)"
    using div_le_dividend [of 4294967295 "unat r"] by linarith
  then show ?thesis by (simp add: segment_len_def unat_of_nat)
qed

lemma segment_len_pos: "r \<noteq> 0 \<Longrightarrow> 0 < 4294967295 div unat (r :: u16)"
proof -
  assume "r \<noteq> 0"
  then have "0 < unat r" by (simp add: unat_gt_0)
  moreover have "unat r < 2 ^ 16" using unsigned_less [of r] by simp
  ultimately show ?thesis by (simp add: div_greater_zero_iff)
qed

lemma unat_ucast_u16 [simp]: "unat (ucast (ui :: u16) :: u32) = unat ui"
proof -
  have "unat ui < 2 ^ LENGTH(16)" by (rule unsigned_less)
  then have "unat ui < (4294967296 :: nat)" by simp
  then show ?thesis by (simp add: unsigned_ucast_eq take_bit_nat_eq_self_iff)
qed

lemma numHash_unat: "unat (numHash key mx) = (unat key * 16777619 mod 2 ^ 32) mod unat mx"
  by (simp add: numHash_def unat_mod unat_word_ariths)

lemma segment_pos_unat:
  assumes "r \<noteq> 0" and "ui < r"
  shows "unat (segment_pos (segment_len r) ui key) =
         unat ui * (4294967295 div unat r) + (unat key * 16777619 mod 2 ^ 32) mod (4294967295 div unat r)"
proof -
  let ?L = "4294967295 div unat r"
  have L: "0 < ?L" using assms(1) by (rule segment_len_pos)
  have ui: "unat ui < unat r" using assms(2) by (simp add: word_less_nat_alt)
  have "(unat ui + 1) * ?L \<le> unat r * ?L"
  proof (rule mult_le_mono1)
    show "unat ui + 1 \<le> unat r" using ui by simp
  qed
  also have "\<dots> \<le> 4294967295" by (simp add: mult.commute)
  finally have top: "(unat ui + 1) * ?L \<le> 4294967295" .
  have idx: "(unat key * 16777619 mod 2 ^ 32) mod ?L < ?L" using L by simp
  have le: "?L * unat ui \<le> (unat ui + 1) * ?L" by simp
  have "?L * unat ui < 4294967296" using top le by linarith
  then have "unat (segment_len r) * unat (ucast ui :: u32) < 2 ^ LENGTH(32)"
    by (simp add: segment_len_unat)
  then have m: "unat (segment_len r * ucast ui) = ?L * unat ui"
    by (simp only: unat_mult_lem [THEN iffD1] segment_len_unat unat_ucast_u16)
  have "?L * unat ui + (unat key * 16777619 mod 2 ^ 32) mod ?L < (unat ui + 1) * ?L"
    using idx by simp
  with top have "unat (segment_len r * ucast ui) + unat (numHash key (segment_len r))
      < 2 ^ LENGTH(32)"
    by (simp only: m numHash_unat segment_len_unat) (simp add: mult.commute)
  then have "unat (segment_len r * ucast ui + numHash key (segment_len r)) =
        ?L * unat ui + (unat key * 16777619 mod 2 ^ 32) mod ?L"
    by (simp only: unat_add_lem [THEN iffD1] m numHash_unat segment_len_unat)
  then show ?thesis by (simp add: segment_pos_def Let_def mult.commute)
qed

lemma segment_pos_in_segment:
  assumes "r \<noteq> 0" and "ui < r"
  shows "in_segment r (unat ui) (segment_pos (segment_len r) ui key)"
  using segment_len_pos [OF assms(1)]
  by (simp add: in_segment_def segment_pos_unat [OF assms])

lemma in_segment_unique:
  assumes "in_segment r i p" and "in_segment r j p"
  shows "i = j"
proof -
  let ?L = "4294967295 div unat r"
  have A: "\<not> a < b" if "a * ?L \<le> unat p" "unat p < (a + 1) * ?L"
    "b * ?L \<le> unat p" "unat p < (b + 1) * ?L" for a b
  proof
    assume "a < b"
    then have "(a + 1) * ?L \<le> b * ?L" by (intro mult_le_mono1) simp
    with that show False by linarith
  qed
  from assms have "\<not> i < j" and "\<not> j < i"
    unfolding in_segment_def using A [of i j] A [of j i] by blast+
  then show ?thesis by simp
qed


lemma of_nat_index:
  assumes "i < unat (r :: u16)"
  shows "unat (of_nat i :: u16) = i" and "(of_nat i :: u16) < r"
proof -
  show u: "unat (of_nat i :: u16) = i" using assms by (intro le_unat_uoi [of _ r]) simp
  show "(of_nat i :: u16) < r" using assms u by (simp add: word_less_nat_alt)
qed

lemma vnode_pos_in_segment:
  assumes "r \<noteq> 0" and "ui < r" and "vnode_pos (segment_len r) node ui m = Some p"
  shows "in_segment r (unat ui) p"
  using assms(3) segment_pos_in_segment [OF assms(1,2)]
  by (auto simp: vnode_pos_def Let_def split: if_splits)

lemma vnode_pos_cong:
  assumes "r \<noteq> 0" and "ui < r" and "HashFunc m' = HashFunc m"
    and "\<And>p. in_segment r (unat ui) p \<Longrightarrow> vnodeToNode m' p = vnodeToNode m p"
  shows "vnode_pos (segment_len r) node ui m' = vnode_pos (segment_len r) node ui m"
  using assms(3) assms(4) [OF segment_pos_in_segment [OF assms(1,2)]]
  by (simp add: vnode_pos_def Let_def)

lemma add_vnode_vnodeToNode:
  "vnodeToNode (add_vnode L node ui m) p =
     (if vnode_pos L node ui m = Some p then Some node else vnodeToNode m p)"
  by (auto simp: add_vnode_def split: option.splits)

lemma vnode_pos_add_vnode:
  assumes "r \<noteq> 0" and i: "i < unat r" and j: "j < unat r" and "i \<noteq> j"
  shows "vnode_pos (segment_len r) node' (of_nat j) (add_vnode (segment_len r) node (of_nat i) m)
         = vnode_pos (segment_len r) node' (of_nat j) m"
proof (rule vnode_pos_cong [OF assms(1)])
  let ?L = "segment_len r"
  let ?m1 = "add_vnode ?L node (of_nat i) m"
  show "(of_nat j :: u16) < r" by (rule of_nat_index(2) [OF j])
  show "HashFunc ?m1 = HashFunc m" by simp
  fix q assume q: "in_segment r (unat (of_nat j :: u16)) q"
  have "vnode_pos ?L node (of_nat i) m \<noteq> Some q"
  proof
    assume "vnode_pos ?L node (of_nat i) m = Some q"
    from vnode_pos_in_segment [OF assms(1) of_nat_index(2) [OF i] this]
    have "in_segment r (unat (of_nat i :: u16)) q" .
    from in_segment_unique [OF this q]
    have "unat (of_nat i :: u16) = unat (of_nat j :: u16)" .
    then have "i = j" by (simp add: of_nat_index(1) [OF i] of_nat_index(1) [OF j])
    with assms(4) show False by simp
  qed
  then show "vnodeToNode ?m1 q = vnodeToNode m q" by (simp add: add_vnode_vnodeToNode)
qed

lemma add_vnodes_vnodeToNode:
  assumes "r \<noteq> 0"
  shows "\<forall>i\<in>set is. i < unat r \<Longrightarrow> distinct is \<Longrightarrow>
    vnodeToNode (fold (\<lambda>i. add_vnode (segment_len r) node (of_nat i)) is m) p =
      (if \<exists>i\<in>set is. vnode_pos (segment_len r) node (of_nat i) m = Some p
       then Some node else vnodeToNode m p)"
proof (induction "is" arbitrary: m)
  case Nil
  show ?case by simp
next
  case (Cons i "is")
  let ?L = "segment_len r"
  let ?m1 = "add_vnode ?L node (of_nat i) m"
  have same: "vnode_pos ?L node (of_nat j) ?m1 = vnode_pos ?L node (of_nat j) m"
    if j: "j \<in> set is" for j
    using Cons.prems j by (intro vnode_pos_add_vnode [OF assms]) auto
  have "vnodeToNode (fold (\<lambda>i. add_vnode ?L node (of_nat i)) is ?m1) p =
      (if \<exists>j\<in>set is. vnode_pos ?L node (of_nat j) ?m1 = Some p
       then Some node else vnodeToNode ?m1 p)"
    using Cons.prems by (intro Cons.IH) simp_all
  also have "\<dots> = (if \<exists>j\<in>set is. vnode_pos ?L node (of_nat j) m = Some p
       then Some node else vnodeToNode ?m1 p)"
    using same by simp
  finally show ?case by (auto simp: add_vnode_vnodeToNode)
qed

lemma add_vnode_nodeToVnode:
  "nodeToVnode m node = Some ps \<Longrightarrow>
   nodeToVnode (add_vnode L node ui m) node =
     Some (ps @ (case vnode_pos L node ui m of None \<Rightarrow> [] | Some p \<Rightarrow> [p]))"
  by (auto simp: add_vnode_def split: option.splits)

lemma add_vnodes_nodeToVnode:
  assumes "r \<noteq> 0"
  shows "\<forall>i\<in>set is. i < unat r \<Longrightarrow> distinct is \<Longrightarrow> nodeToVnode m node = Some ps \<Longrightarrow>
    nodeToVnode (fold (\<lambda>i. add_vnode (segment_len r) node (of_nat i)) is m) node =
      Some (ps @ List.map_filter (\<lambda>i. vnode_pos (segment_len r) node (of_nat i) m) is)"
proof (induction "is" arbitrary: m ps)
  case Nil
  then show ?case by (simp add: List.map_filter_simps)
next
  case (Cons i "is")
  let ?L = "segment_len r"
  let ?m1 = "add_vnode ?L node (of_nat i) m"
  let ?ps1 = "ps @ (case vnode_pos ?L node (of_nat i) m of None \<Rightarrow> [] | Some p \<Rightarrow> [p])"
  have same: "vnode_pos ?L node (of_nat j) ?m1 = vnode_pos ?L node (of_nat j) m"
    if j: "j \<in> set is" for j
    using Cons.prems j by (intro vnode_pos_add_vnode [OF assms]) auto
  have s1: "nodeToVnode ?m1 node = Some ?ps1"
    by (rule add_vnode_nodeToVnode [OF Cons.prems(3)])
  have "nodeToVnode (fold (\<lambda>i. add_vnode ?L node (of_nat i)) is ?m1) node =
      Some (?ps1 @ List.map_filter (\<lambda>j. vnode_pos ?L node (of_nat j) ?m1) is)"
    using Cons.prems(1,2) by (intro Cons.IH [OF _ _ s1]) simp_all
  also have "List.map_filter (\<lambda>j. vnode_pos ?L node (of_nat j) ?m1) is =
             List.map_filter (\<lambda>j. vnode_pos ?L node (of_nat j) m) is"
    unfolding List.map_filter_def using same by (auto intro!: map_cong filter_cong)
  finally show ?case
    by (cases "vnode_pos ?L node (of_nat i) m") (simp_all add: List.map_filter_simps)
qed

lemma vnode_pos_nodeToVnode_update [simp]:
  "vnode_pos L node ui (m\<lparr> nodeToVnode := x \<rparr>) = vnode_pos L node ui m"
  by (simp add: vnode_pos_def Let_def)

lemma vnode_pos_vNodes_update [simp]:
  "vnode_pos L node ui (m\<lparr> vNodes := x \<rparr>) = vnode_pos L node ui m"
  by (simp add: vnode_pos_def Let_def)

lemma add_node_fresh:
  assumes "replicas m \<noteq> 0" and "nodeToVnode m node = None"
  shows "vnodeToNode (add_node (segment_len (replicas m)) node m) p =
      (if \<exists>i<unat (replicas m). vnode_pos (segment_len (replicas m)) node (of_nat i) m = Some p
       then Some node else vnodeToNode m p)"
    and "nodeToVnode (add_node (segment_len (replicas m)) node m) node =
      Some (List.map_filter (\<lambda>i. vnode_pos (segment_len (replicas m)) node (of_nat i) m)
              [0 ..< unat (replicas m)])"
    and "n \<noteq> node \<Longrightarrow>
         nodeToVnode (add_node (segment_len (replicas m)) node m) n = nodeToVnode m n"
proof -
  let ?m0 = "m\<lparr> nodeToVnode := (nodeToVnode m)(node \<mapsto> []) \<rparr>"
  have eq: "add_node (segment_len (replicas m)) node m =
    fold (\<lambda>i. add_vnode (segment_len (replicas m)) node (of_nat i)) [0 ..< unat (replicas m)] ?m0"
    using assms(2) by (simp add: add_node_def)
  show "vnodeToNode (add_node (segment_len (replicas m)) node m) p =
      (if \<exists>i<unat (replicas m). vnode_pos (segment_len (replicas m)) node (of_nat i) m = Some p
       then Some node else vnodeToNode m p)"
    unfolding eq using add_vnodes_vnodeToNode [OF assms(1), of "[0 ..< unat (replicas m)]" node ?m0 p]
    by (auto simp: Bex_def)
  show "nodeToVnode (add_node (segment_len (replicas m)) node m) node =
      Some (List.map_filter (\<lambda>i. vnode_pos (segment_len (replicas m)) node (of_nat i) m)
              [0 ..< unat (replicas m)])"
    unfolding eq
    using add_vnodes_nodeToVnode [OF assms(1), of "[0 ..< unat (replicas m)]" ?m0 node "[]"]
    by simp
  show "nodeToVnode (add_node (segment_len (replicas m)) node m) n = nodeToVnode m n"
    if "n \<noteq> node"
    unfolding eq using that by (simp add: add_vnodes_other)
qed

subsection \<open>Placement of virtual nodes\<close>

text \<open>Entries of the position map are never overwritten by \<open>add\<close>.\<close>

lemma add_vnode_persist:
  "vnodeToNode m p = Some n \<Longrightarrow> vnodeToNode (add_vnode L node ui m) p = Some n"
  by (auto simp: add_vnode_vnodeToNode dest: vnode_pos_free)

lemma add_vnodes_persist:
  "vnodeToNode m p = Some n \<Longrightarrow>
   vnodeToNode (fold (\<lambda>i. add_vnode L node (f i)) is m) p = Some n"
  by (induction "is" arbitrary: m) (auto intro: add_vnode_persist)

lemma add_node_persist:
  "vnodeToNode m p = Some n \<Longrightarrow> vnodeToNode (add_node L node m) p = Some n"
  by (auto simp: add_node_def intro: add_vnodes_persist)

lemma add_nodes_persist:
  "vnodeToNode m p = Some n \<Longrightarrow> vnodeToNode (fold (add_node L) nodes m) p = Some n"
  by (induction nodes arbitrary: m) (auto intro: add_node_persist)

lemma uint_index:
  assumes "i < unat (r :: u16)"
  shows "uint (of_nat i :: u16) = int i"
  using of_nat_index(1) [OF assms] by (simp add: uint_nat)

lemma vnode_pos_candidates:
  assumes "vnode_pos L node ui m = Some p"
  shows "p = segment_pos L ui (HashFunc m (combKey node (uint ui))) \<or>
    p = segment_pos L ui (segment_pos L ui (HashFunc m (combKey node (uint ui))) + 1) \<or>
    p = segment_pos L ui
          (segment_pos L ui (segment_pos L ui (HashFunc m (combKey node (uint ui))) + 1) + 1)"
  using assms by (auto simp: vnode_pos_def Let_def split: if_splits)

text \<open>Every entry that \<open>add\<close> creates is a tried position of its node.\<close>

lemma add_node_new:
  assumes r: "replicas m \<noteq> 0"
    and new: "vnodeToNode (add_node (segment_len (replicas m)) node m) p = Some n"
    and old: "vnodeToNode m p \<noteq> Some n"
  shows "n = node \<and> nodeToVnode m node = None \<and> tried_position (HashFunc m) (replicas m) node p"
proof -
  let ?L = "segment_len (replicas m)"
  have fresh: "nodeToVnode m node = None"
  proof (rule ccontr)
    assume "nodeToVnode m node \<noteq> None"
    then have "add_node ?L node m = m" by (simp add: add_node_def)
    with new old show False by simp
  qed
  from new old add_node_fresh(1) [OF r fresh, of p]
  have ex: "\<exists>i<unat (replicas m). vnode_pos ?L node (of_nat i) m = Some p" and n: "n = node"
    by (auto split: if_splits)
  then obtain i where i: "i < unat (replicas m)" and v: "vnode_pos ?L node (of_nat i) m = Some p"
    by blast
  from vnode_pos_in_segment [OF r of_nat_index(2) [OF i] v]
  have seg: "in_segment (replicas m) i p" by (simp add: of_nat_index(1) [OF i])
  from vnode_pos_candidates [OF v]
  have "tried_position (HashFunc m) (replicas m) node p"
    unfolding tried_position_def uint_index [OF i] using i seg by blast
  with n fresh show ?thesis by simp
qed

lemma add_nodes_new:
  assumes r: "replicas m \<noteq> 0"
  shows "vnodeToNode (fold (add_node (segment_len (replicas m))) nodes m) p = Some n \<Longrightarrow>
    vnodeToNode m p \<noteq> Some n \<Longrightarrow>
    n \<in> set nodes \<and> nodeToVnode m n = None \<and> tried_position (HashFunc m) (replicas m) n p"
  using r
proof (induction nodes arbitrary: m)
  case Nil
  then show ?case by simp
next
  case (Cons x xs)
  let ?L = "segment_len (replicas m)"
  let ?m1 = "add_node ?L x m"
  show ?case
  proof (cases "vnodeToNode ?m1 p = Some n")
    case True
    from add_node_new [OF Cons.prems(3) True Cons.prems(2)] show ?thesis by simp
  next
    case False
    have r1: "replicas ?m1 \<noteq> 0" using Cons.prems(3) by simp
    have f: "vnodeToNode (fold (add_node (segment_len (replicas ?m1))) xs ?m1) p = Some n"
      using Cons.prems(1) by simp
    from Cons.IH [OF f False r1]
    have a: "n \<in> set xs" and b: "nodeToVnode ?m1 n = None"
      and c: "tried_position (HashFunc m) (replicas m) n p" by simp_all
    have "n \<notin> dom (nodeToVnode ?m1)" using b by (simp add: domIff)
    then have "nodeToVnode m n = None" by (simp add: add_node_dom domIff)
    with a c show ?thesis by simp
  qed
qed

lemma add_node_first:
  assumes r: "replicas m \<noteq> 0" and fresh: "nodeToVnode m n = None" and i: "i < unat (replicas m)"
    and free: "vnodeToNode m (segment_pos (segment_len (replicas m)) (of_nat i)
                 (HashFunc m (combKey n (int i)))) = None"
  shows "vnodeToNode (fold (add_node (segment_len (replicas m))) (n # rest) m)
           (segment_pos (segment_len (replicas m)) (of_nat i) (HashFunc m (combKey n (int i))))
         = Some n"
proof -
  let ?L = "segment_len (replicas m)"
  let ?c = "segment_pos ?L (of_nat i) (HashFunc m (combKey n (int i)))"
  have "vnode_pos ?L n (of_nat i) m = Some ?c"
    using free by (simp add: vnode_pos_def Let_def uint_index [OF i])
  with i have "vnodeToNode (add_node ?L n m) ?c = Some n"
    by (auto simp: add_node_fresh(1) [OF r fresh])
  then show ?thesis by (simp add: add_nodes_persist)
qed

text \<open>
  C6 (as amended).  Take a successful \<open>Add\<close> on a ring of \<open>replicas\<close> segments of length
  \<open>segmentLen = MaxUint32 div replicas\<close>; the segments are disjoint, of equal width, and fit
  in the 32-bit space (\<open>replicas * segmentLen \<le> MaxUint32\<close>), without having to cover it.
  For every node and index \<open>i < replicas\<close> the first candidate is
  \<open>i * segmentLen + ((hash(Itoa i @ node) * 16777619 mod 2^32) mod segmentLen)\<close>: the product
  is the 32-bit product, as \<open>numHash\<close> computes it.  The first node of the call, when it was
  not a member, owns each of its first candidates that was free before the call.  Every
  position that the call gives to a node belongs to a node of the call that was not a
  member, lies in segment \<open>i\<close> for some index \<open>i\<close>, and is the first candidate of that index,
  the rehash of it plus one, or the rehash of that plus one.
\<close>

theorem candidate_position:
  assumes "replicas m \<noteq> 0" and "snd (Add m nodes) = None"
  shows "unat (segment_len (replicas m)) = 4294967295 div unat (replicas m) \<and>
    unat (replicas m) * unat (segment_len (replicas m)) \<le> 4294967295 \<and>
    (\<forall>n i. i < unat (replicas m) \<longrightarrow>
       unat (segment_pos (segment_len (replicas m)) (of_nat i) (HashFunc m (combKey n (int i)))) =
         i * unat (segment_len (replicas m)) +
         (unat (HashFunc m (Itoa (int i) @ n)) * 16777619 mod 2 ^ 32)
           mod unat (segment_len (replicas m))) \<and>
    (\<forall>n rest i. nodes = n # rest \<and> nodeToVnode m n = None \<and> i < unat (replicas m) \<and>
       vnodeToNode m (segment_pos (segment_len (replicas m)) (of_nat i)
                        (HashFunc m (combKey n (int i)))) = None \<longrightarrow>
       vnodeToNode (fst (Add m nodes))
         (segment_pos (segment_len (replicas m)) (of_nat i) (HashFunc m (combKey n (int i))))
       = Some n) \<and>
    (\<forall>p n. vnodeToNode (fst (Add m nodes)) p = Some n \<and> vnodeToNode m p \<noteq> Some n \<longrightarrow>
       n \<in> set nodes \<and> nodeToVnode m n = None \<and>
       (\<exists>i<unat (replicas m).
          i * unat (segment_len (replicas m)) \<le> unat p \<and>
          unat p < (i + 1) * unat (segment_len (replicas m)) \<and>
          (p = segment_pos (segment_len (replicas m)) (of_nat i) (HashFunc m (combKey n (int i))) \<or>
           p = segment_pos (segment_len (replicas m)) (of_nat i)
                 (segment_pos (segment_len (replicas m)) (of_nat i)
                    (HashFunc m (combKey n (int i))) + 1) \<or>
           p = segment_pos (segment_len (replicas m)) (of_nat i)
                 (segment_pos (segment_len (replicas m)) (of_nat i)
                    (segment_pos (segment_len (replicas m)) (of_nat i)
                       (HashFunc m (combKey n (int i))) + 1) + 1))))"
proof (intro conjI allI impI)
  let ?L = "segment_len (replicas m)"
  have A: "vnodeToNode (fst (Add m nodes)) = vnodeToNode (fold (add_node ?L) nodes m)"
    using assms by (simp add: Add_def add_maps(1) split: if_splits)
  show "unat ?L = 4294967295 div unat (replicas m)" by (rule segment_len_unat)
  show "unat (replicas m) * unat ?L \<le> 4294967295" by (simp add: segment_len_unat)
  {
    fix n i assume i: "i < unat (replicas m)"
    from segment_pos_unat [OF assms(1) of_nat_index(2) [OF i], of "HashFunc m (combKey n (int i))"]
    show "unat (segment_pos ?L (of_nat i) (HashFunc m (combKey n (int i)))) =
         i * unat ?L + (unat (HashFunc m (Itoa (int i) @ n)) * 16777619 mod 2 ^ 32) mod unat ?L"
      by (simp add: of_nat_index(1) [OF i] segment_len_unat combKey_def)
  }
  {
    fix n rest i
    assume h: "nodes = n # rest \<and> nodeToVnode m n = None \<and> i < unat (replicas m) \<and>
       vnodeToNode m (segment_pos ?L (of_nat i) (HashFunc m (combKey n (int i)))) = None"
    then have nd: "nodes = n # rest" by simp
    have "vnodeToNode (fold (add_node ?L) nodes m)
           (segment_pos ?L (of_nat i) (HashFunc m (combKey n (int i)))) = Some n"
      unfolding nd using h by (intro add_node_first [OF assms(1)]) simp_all
    then show "vnodeToNode (fst (Add m nodes))
         (segment_pos ?L (of_nat i) (HashFunc m (combKey n (int i)))) = Some n"
      by (simp only: A)
  }
  {
    fix p n
    assume h: "vnodeToNode (fst (Add m nodes)) p = Some n \<and> vnodeToNode m p \<noteq> Some n"
    then have "vnodeToNode (fold (add_node ?L) nodes m) p = Some n" by (simp only: A)
    from add_nodes_new [OF assms(1) this] h
    have a: "n \<in> set nodes" and b: "nodeToVnode m n = None"
      and c: "tried_position (HashFunc m) (replicas m) n p" by simp_all
    show "n \<in> set nodes" by (rule a)
    show "nodeToVnode m n = None" by (rule b)
    from c show "\<exists>i<unat (replicas m).
          i * unat ?L \<le> unat p \<and> unat p < (i + 1) * unat ?L \<and>
          (p = segment_pos ?L (of_nat i) (HashFunc m (combKey n (int i))) \<or>
           p = segment_pos ?L (of_nat i)
                 (segment_pos ?L (of_nat i) (HashFunc m (combKey n (int i))) + 1) \<or>
           p = segment_pos ?L (of_nat i)
                 (segment_pos ?L (of_nat i)
                    (segment_pos ?L (of_nat i) (HashFunc m (combKey n (int i))) + 1) + 1))"
      unfolding tried_position_def in_segment_def segment_len_unat by blast
  }
qed

theorem candidate_position_witness:
  "replicas (New 2 (Some max_hash)) \<noteq> 0 \<and>
   snd (Add (New 2 (Some max_hash)) [''a'']) = None \<and>
   unat (replicas (New 2 (Some max_hash))) = 2 \<and>
   unat (segment_len (replicas (New 2 (Some max_hash)))) = 2147483647 \<and>
   nodeToVnode (New 2 (Some max_hash)) ''a'' = None \<and>
   segment_pos (segment_len 2) 0 (max_hash (combKey ''a'' 0)) = 2130706030 \<and>
   unat (2130706030 :: u32) =
     0 * 2147483647 + (unat (max_hash (Itoa 0 @ ''a'')) * 16777619 mod 2 ^ 32) mod 2147483647 \<and>
   vnodeToNode (New 2 (Some max_hash)) 2130706030 = None \<and>
   vnodeToNode (fst (Add (New 2 (Some max_hash)) [''a''])) 2130706030 = Some ''a'' \<and>
   vnodeToNode (New 2 (Some max_hash)) 4278189677 \<noteq> Some ''a'' \<and>
   vnodeToNode (fst (Add (New 2 (Some max_hash)) [''a''])) 4278189677 = Some ''a'' \<and>
   segment_pos (segment_len 2) 1 (max_hash (combKey ''a'' 1)) = 4278189677 \<and>
   1 * 2147483647 \<le> unat (4278189677 :: u32) \<and>
   unat (4278189677 :: u32) < (1 + 1) * 2147483647"
proof -
  have c: "replicas (New 2 (Some max_hash)) = 2" "HashFunc (New 2 (Some max_hash)) = max_hash"
    "vnodeToNode (New 2 (Some max_hash)) = Map.empty"
    "nodeToVnode (New 2 (Some max_hash)) = Map.empty"
    by (simp_all add: New_def miniReplicas_def)
  show ?thesis
    using candidate_position [of "New 2 (Some max_hash)" "[''a'']"]
    by (simp add: c ring_a_max segment_len_def segment_pos_def numHash_def max_hash_def)
qed

text \<open>
  C6 as stated fails on the code.  With the hash function that returns \<open>4294967295\<close> and two
  replicas, the segment length is \<open>2147483647\<close> and \<open>Add\<close> puts index 0 of node \<open>a\<close> at
  \<open>2130706030\<close>, whereas \<open>0 * segmentLen + (hash * 16777619) mod segmentLen\<close>, computed without
  wrap-around, is \<open>16777619\<close>, a position that holds no virtual node.  Nor do the segments
  partition the position space: position \<open>4294967295\<close> lies in neither of the two.
\<close>

theorem candidate_formula_counterexample:
  "unat (segment_len (replicas (New 2 (Some max_hash)))) = 2147483647 \<and>
   unat (max_hash (Itoa 0 @ ''a'')) = 4294967295 \<and>
   segment_pos (segment_len 2) 0 (max_hash (combKey ''a'' 0)) = 2130706030 \<and>
   nodeToVnode (fst (Add (New 2 (Some max_hash)) [''a''])) ''a'' =
     Some [2130706030, 4278189677] \<and>
   0 * unat (segment_len 2) +
     (unat (max_hash (Itoa 0 @ ''a'')) * 16777619) mod unat (segment_len 2) = 16777619 \<and>
   unat (2130706030 :: u32) \<noteq>
     0 * unat (segment_len 2) +
     (unat (max_hash (Itoa 0 @ ''a'')) * 16777619) mod unat (segment_len 2) \<and>
   vnodeToNode (fst (Add (New 2 (Some max_hash)) [''a''])) 16777619 = None \<and>
   \<not> in_segment 2 0 4294967295 \<and> \<not> in_segment 2 1 4294967295"
proof -
  have c: "replicas (New 2 (Some max_hash)) = 2"
    by (simp add: New_def miniReplicas_def)
  show ?thesis
    by (simp add: c ring_a_max segment_len_def segment_pos_def numHash_def max_hash_def
        in_segment_def)
qed

subsection \<open>Collisions\<close>



subsection \<open>Insertion order\<close>

lemma map_filter_all_Some:
  "(\<And>x. x \<in> set xs \<Longrightarrow> f x = Some (g x)) \<Longrightarrow> List.map_filter f xs = map g xs"
  by (induction xs) (simp_all add: List.map_filter_simps)

lemma placed_add_node:
  assumes pl: "placed H R T m" and R: "R \<noteq> 0" and TS: "T \<subseteq> S" and nS: "n \<in> S"
    and nc: "no_collision m S"
  shows "placed H R (insert n T) (add_node (segment_len R) n m)"
proof (cases "n \<in> T")
  case True
  with pl have "nodeToVnode m n \<noteq> None" by (simp add: placed_def)
  then have "add_node (segment_len R) n m = m" by (simp add: add_node_def)
  with pl True show ?thesis by (simp add: insert_absorb)
next
  case False
  let ?L = "segment_len R"
  define cand where "cand = (\<lambda>a i. segment_pos ?L (of_nat i :: u16)
                     (H (combKey a (uint (of_nat i :: u16)))))"
  from pl have HF: "HashFunc m = H" and RP: "replicas m = R"
    and V: "\<And>p a. vnodeToNode m p = Some a \<longleftrightarrow> a \<in> T \<and> (\<exists>i<unat R. cand a i = p)"
    and N: "\<And>a. nodeToVnode m a = (if a \<in> T then Some (map (cand a) [0 ..< unat R]) else None)"
    by (simp_all add: placed_def cand_def)
  have fresh: "nodeToVnode m n = None" using N [of n] False by simp
  have seg: "in_segment R i (cand a i)" if "i < unat R" for a i
    using segment_pos_in_segment [OF R of_nat_index(2) [OF that]]
    by (simp add: cand_def of_nat_index(1) [OF that])
  have differ: "cand a i \<noteq> cand n j" if "a \<in> T" "i < unat R" "j < unat R" for a i j
  proof
    assume eq: "cand a i = cand n j"
    from seg [OF that(2), of a] seg [OF that(3), of n] eq have "i = j"
      by (auto dest: in_segment_unique)
    moreover have "a \<noteq> n" using that(1) False by auto
    moreover have "a \<in> S" using that(1) TS by auto
    ultimately show False
      using nc nS eq of_nat_index(2) [OF that(3)]
      unfolding no_collision_def cand_def HF RP by blast
  qed
  have free: "vnodeToNode m (cand n j) = None" if "j < unat R" for j
  proof (cases "vnodeToNode m (cand n j)")
    case None
    then show ?thesis .
  next
    case (Some a)
    then obtain i where "a \<in> T" "i < unat R" "cand a i = cand n j" using V by blast
    with differ that show ?thesis by blast
  qed
  have pos: "vnode_pos ?L n (of_nat j) m = Some (cand n j)" if "j < unat R" for j
    using free [OF that] by (simp add: vnode_pos_def cand_def HF)
  have R': "replicas m \<noteq> 0" using R RP by simp
  note af = add_node_fresh [OF R' fresh, unfolded RP]
  have v': "vnodeToNode (add_node ?L n m) p =
      (if \<exists>i<unat R. cand n i = p then Some n else vnodeToNode m p)" for p
    unfolding af(1) using pos by (auto simp: )
  have n': "nodeToVnode (add_node ?L n m) n = Some (map (cand n) [0 ..< unat R])"
    unfolding af(2) by (simp, rule map_filter_all_Some) (simp add: pos)
  have h1: "HashFunc (add_node ?L n m) = H" using HF by simp
  have h2: "replicas (add_node ?L n m) = R" using RP by simp
  have h3: "vnodeToNode (add_node ?L n m) p = Some a \<longleftrightarrow>
          a \<in> insert n T \<and> (\<exists>i<unat R. cand a i = p)" for p a
    proof (cases "\<exists>i<unat R. cand n i = p")
      case True
      then obtain j where j: "j < unat R" "cand n j = p" by blast
      have notT: "\<not> (a \<in> T \<and> (\<exists>i<unat R. cand a i = p))"
      proof
        assume "a \<in> T \<and> (\<exists>i<unat R. cand a i = p)"
        then obtain i where "a \<in> T" "i < unat R" "cand a i = p" by blast
        with differ [of a i j] j show False by simp
      qed
      have L: "vnodeToNode (add_node ?L n m) p = Some n"
        unfolding v' using True by (simp only: if_True)
      show ?thesis
      proof
        assume "vnodeToNode (add_node ?L n m) p = Some a"
        with L have "a = n" by simp
        with True show "a \<in> insert n T \<and> (\<exists>i<unat R. cand a i = p)" by simp
      next
        assume "a \<in> insert n T \<and> (\<exists>i<unat R. cand a i = p)"
        with notT have "a = n" by blast
        with L show "vnodeToNode (add_node ?L n m) p = Some a" by simp
      qed
    next
      case nex: False
      have E: "vnodeToNode (add_node ?L n m) p = vnodeToNode m p"
        unfolding v' using nex by (simp only: if_False)
      show ?thesis
      proof
        assume "vnodeToNode (add_node ?L n m) p = Some a"
        with E V [of p a] show "a \<in> insert n T \<and> (\<exists>i<unat R. cand a i = p)" by simp
      next
        assume r: "a \<in> insert n T \<and> (\<exists>i<unat R. cand a i = p)"
        with nex have "a \<noteq> n" by blast
        with r E V [of p a] show "vnodeToNode (add_node ?L n m) p = Some a" by simp
      qed
    qed
  have h4: "nodeToVnode (add_node ?L n m) a =
      (if a \<in> insert n T then Some (map (cand a) [0 ..< unat R]) else None)" for a
    using n' af(3) [of a] N [of a] by (cases "a = n") simp_all
  show ?thesis
    unfolding placed_def using h1 h2 h3 h4 unfolding cand_def by blast
qed

lemma placed_add_nodes:
  assumes R: "R \<noteq> 0"
  shows "placed H R T m \<Longrightarrow> T \<subseteq> S \<Longrightarrow> set xs \<subseteq> S \<Longrightarrow> no_collision m S \<Longrightarrow>
         placed H R (T \<union> set xs) (fold (add_node (segment_len R)) xs m)"
proof (induction xs arbitrary: T m)
  case Nil
  then show ?case by simp
next
  case (Cons x xs)
  have p1: "placed H R (insert x T) (add_node (segment_len R) x m)"
    using Cons.prems by (intro placed_add_node [OF _ R, where S = S]) auto
  have nc1: "no_collision (add_node (segment_len R) x m) S"
    using Cons.prems(4) by (simp add: no_collision_def)
  have "placed H R (insert x T \<union> set xs)
          (fold (add_node (segment_len R)) xs (add_node (segment_len R) x m))"
    using Cons.prems(2,3) by (intro Cons.IH [OF p1 _ _ nc1]) auto
  then show ?case by simp
qed

lemma placed_New: "placed (HashFunc (New r hash)) (replicas (New r hash)) {} (New r hash)"
  by (simp add: placed_def New_def)

lemma placed_unique:
  assumes "placed H R T m" and "placed H R T m'"
  shows "vnodeToNode m = vnodeToNode m'" and "nodeToVnode m = nodeToVnode m'"
proof -
  from assms(1) have V: "\<And>p a. vnodeToNode m p = Some a \<longleftrightarrow>
      a \<in> T \<and> (\<exists>i<unat R. segment_pos (segment_len R) (of_nat i)
                     (H (combKey a (uint (of_nat i :: u16)))) = p)"
    and N: "\<And>a. nodeToVnode m a =
        (if a \<in> T
         then Some (map (\<lambda>i. segment_pos (segment_len R) (of_nat i)
                     (H (combKey a (uint (of_nat i :: u16))))) [0 ..< unat R])
         else None)"
    by (simp_all add: placed_def)
  from assms(2) have V': "\<And>p a. vnodeToNode m' p = Some a \<longleftrightarrow>
      a \<in> T \<and> (\<exists>i<unat R. segment_pos (segment_len R) (of_nat i)
                     (H (combKey a (uint (of_nat i :: u16)))) = p)"
    and N': "\<And>a. nodeToVnode m' a =
        (if a \<in> T
         then Some (map (\<lambda>i. segment_pos (segment_len R) (of_nat i)
                     (H (combKey a (uint (of_nat i :: u16))))) [0 ..< unat R])
         else None)"
    by (simp_all add: placed_def)
  have iff: "vnodeToNode m p = Some a \<longleftrightarrow> vnodeToNode m' p = Some a" for p a
    unfolding V V' ..
  have "vnodeToNode m p = vnodeToNode m' p" for p
  proof (cases "vnodeToNode m p")
    case None
    show ?thesis
    proof (cases "vnodeToNode m' p")
      case None
      with \<open>vnodeToNode m p = None\<close> show ?thesis by simp
    next
      case (Some a)
      with iff [of p a] None show ?thesis by simp
    qed
  next
    case (Some a)
    with iff [of p a] show ?thesis by simp
  qed
  then show "vnodeToNode m = vnodeToNode m'" by (rule ext)
  have "nodeToVnode m a = nodeToVnode m' a" for a
    unfolding N N' ..
  then show "nodeToVnode m = nodeToVnode m'" by (rule ext)
qed


lemma New_replicas_nonzero: "replicas (New r hash) \<noteq> 0"
  using New_inv [of r hash] by (auto simp: ring_inv_def ring_inv0_def dest: replicas_nonzero)

lemma Add_ok: "snd (Add m nodes) = None \<Longrightarrow> Add m nodes = add True nodes m"
  by (simp add: Add_def split: if_splits)

lemma u16_less_2: "(ui :: u16) < 2 \<longleftrightarrow> ui = 0 \<or> ui = 1"
proof -
  have "unat ui < 2 \<longleftrightarrow> unat ui = 0 \<or> unat ui = 1" by arith
  then show ?thesis by (simp add: word_less_nat_alt word_unat_eq_iff)
qed

text \<open>
  C4 (as amended).  Take a hash function, a replica count and a set of nodes in which no
  two distinct nodes have the same first candidate for the same index.  Two fresh rings
  of that configuration, each filled by one successful \<open>Add\<close> of the nodes in some order,
  are the same ring, and \<open>Get\<close> returns the same result on both for every key.
\<close>

theorem Get_insertion_order:
  assumes "set xs = set ys"
    and "snd (Add (New r hash) xs) = None" and "snd (Add (New r hash) ys) = None"
    and "no_collision (New r hash) (set xs)"
  shows "fst (Add (New r hash) xs) = fst (Add (New r hash) ys) \<and>
         Get (fst (Add (New r hash) xs)) key = Get (fst (Add (New r hash) ys)) key"
proof -
  let ?M = "New r hash"
  let ?L = "segment_len (replicas ?M)"
  let ?A = "fst (Add ?M xs)" and ?B = "fst (Add ?M ys)"
  have R: "replicas ?M \<noteq> 0" by (rule New_replicas_nonzero)
  have A: "?A = fst (add True xs ?M)" and B: "?B = fst (add True ys ?M)"
    using assms(2,3) by (simp_all add: Add_ok)
  have pA: "placed (HashFunc ?M) (replicas ?M) (set xs) (fold (add_node ?L) xs ?M)"
    using placed_add_nodes [OF R placed_New, where S = "set xs" and xs = xs] assms(4) by simp
  have pB: "placed (HashFunc ?M) (replicas ?M) (set xs) (fold (add_node ?L) ys ?M)"
    using placed_add_nodes [OF R placed_New, where S = "set xs" and xs = ys] assms(1,4) by simp
  have v: "vnodeToNode ?A = vnodeToNode ?B"
    unfolding A B add_maps(1) [OF R] by (rule placed_unique(1) [OF pA pB])
  have n: "nodeToVnode ?A = nodeToVnode ?B"
    unfolding A B add_maps(2) [OF R] by (rule placed_unique(2) [OF pA pB])
  have "ring_inv ?A" and "ring_inv ?B" using New_inv [of r hash] by (simp_all add: Add_inv)
  then have "sorted (vNodes ?A)" "distinct (vNodes ?A)" "sorted (vNodes ?B)" "distinct (vNodes ?B)"
    and "set (vNodes ?A) = set (vNodes ?B)"
    using v by (simp_all add: ring_inv_def ring_inv0_def vnodes_ok_def)
  then have vn: "vNodes ?A = vNodes ?B" by (intro sorted_distinct_set_unique)
  have "?A = ?B"
    using v n vn by (intro HashRing.equality) (simp_all add: A B add_fields)
  then show ?thesis by simp
qed

lemma snd_add_New: "snd (add doSort nodes (New 2 hash)) = None"
  by (simp add: add_def New_def miniReplicas_def Let_def)

theorem Get_insertion_order_witness:
  "set [''a'', ''b''] = set [''b'', ''a''] \<and>
   snd (Add (New 2 (Some sum_hash)) [''a'', ''b'']) = None \<and>
   snd (Add (New 2 (Some sum_hash)) [''b'', ''a'']) = None \<and>
   no_collision (New 2 (Some sum_hash)) (set [''a'', ''b'']) \<and>
   fst (Add (New 2 (Some sum_hash)) [''a'', ''b''])
     = fst (Add (New 2 (Some sum_hash)) [''b'', ''a'']) \<and>
   Get (fst (Add (New 2 (Some sum_hash)) [''a'', ''b''])) ''k''
     = Get (fst (Add (New 2 (Some sum_hash)) [''b'', ''a''])) ''k''"
proof -
  have s: "set [''a'', ''b''] = set [''b'', ''a'']" by auto
  have e: "snd (Add (New 2 (Some sum_hash)) [''a'', ''b'']) = None"
    "snd (Add (New 2 (Some sum_hash)) [''b'', ''a'']) = None"
    by (simp_all add: Add_def snd_add_New)
      (simp_all add: New_def miniReplicas_def len_map_def limitVNodes_def)
  have c: "no_collision (New 2 (Some sum_hash)) (set [''a'', ''b''])"
    by (simp add: no_collision_def New_def miniReplicas_def u16_less_2 segment_pos_def
        segment_len_def numHash_def sum_hash_def combKey_def Itoa_def udigits.simps)
  from Get_insertion_order [OF s e c, of "''k''"] s e c show ?thesis by blast
qed

text \<open>
  C4 as stated fails when candidates collide: under the constant hash the node added
  first takes position 0, so the key hashing to 0 goes to \<open>a\<close> on one ring and to \<open>b\<close> on
  the other.
\<close>

theorem insertion_order_counterexample:
  "set [''a'', ''b''] = set [''b'', ''a''] \<and>
   Get (fst (Add (New 2 (Some zero_hash)) [''a'', ''b''])) ''k'' = Inr ''a'' \<and>
   Get (fst (Add (New 2 (Some zero_hash)) [''b'', ''a''])) ''k'' = Inr ''b''"
  unfolding ring_ab ring_ba
  by (auto simp: Get_def Search_def search_loop.simps zero_hash_def len_map_def)

subsection \<open>Reset as Remove followed by Add\<close>

lemma appendsD:
  "appends f \<Longrightarrow>
   \<exists>app. \<forall>xs. f (m\<lparr> vNodes := xs \<rparr>) = (f (m\<lparr> vNodes := [] \<rparr>))\<lparr> vNodes := xs @ app \<rparr>"
  by (simp add: appends_def)

lemma appends_id: "appends (\<lambda>m. m)"
  unfolding appends_def by (intro allI exI [of _ "[]"]) simp

lemma appends_comp:
  assumes f: "appends f" and g: "appends g"
  shows "appends (\<lambda>m. g (f m))"
  unfolding appends_def
proof
  fix m
  obtain a where a: "\<And>xs. f (m\<lparr> vNodes := xs \<rparr>) = (f (m\<lparr> vNodes := [] \<rparr>))\<lparr> vNodes := xs @ a \<rparr>"
    using appendsD [OF f, of m] by blast
  let ?M = "f (m\<lparr> vNodes := [] \<rparr>)"
  obtain b where b: "\<And>xs. g (?M\<lparr> vNodes := xs \<rparr>) = (g (?M\<lparr> vNodes := [] \<rparr>))\<lparr> vNodes := xs @ b \<rparr>"
    using appendsD [OF g, of ?M] by blast
  show "\<exists>app. \<forall>xs. g (f (m\<lparr> vNodes := xs \<rparr>)) = (g (f (m\<lparr> vNodes := [] \<rparr>)))\<lparr> vNodes := xs @ app \<rparr>"
  proof (intro exI [of _ "a @ b"] allI)
    fix xs
    have "g (f (m\<lparr> vNodes := xs \<rparr>)) = g (?M\<lparr> vNodes := xs @ a \<rparr>)"
      by (rule arg_cong [OF a])
    also have "\<dots> = (g (?M\<lparr> vNodes := [] \<rparr>))\<lparr> vNodes := (xs @ a) @ b \<rparr>"
      by (rule b)
    finally have 1: "g (f (m\<lparr> vNodes := xs \<rparr>)) =
        (g (?M\<lparr> vNodes := [] \<rparr>))\<lparr> vNodes := xs @ a @ b \<rparr>"
      by simp
    have "?M = ?M\<lparr> vNodes := [] @ a \<rparr>" by (rule a)
    then have "g ?M = g (?M\<lparr> vNodes := a \<rparr>)" by simp
    also have "\<dots> = (g (?M\<lparr> vNodes := [] \<rparr>))\<lparr> vNodes := a @ b \<rparr>"
      by (rule b)
    finally have 2: "g ?M = (g (?M\<lparr> vNodes := [] \<rparr>))\<lparr> vNodes := a @ b \<rparr>" .
    show "g (f (m\<lparr> vNodes := xs \<rparr>)) = (g ?M)\<lparr> vNodes := xs @ a @ b \<rparr>"
      unfolding 1 by (subst 2) simp
  qed
qed

lemma appends_fold:
  assumes "\<And>x. appends (f x)"
  shows "appends (fold f xs)"
proof (induction xs)
  case Nil
  show ?case using appends_id by (simp add: id_def)
next
  case (Cons x xs)
  have "appends (\<lambda>m. fold f xs (f x m))" by (rule appends_comp [OF assms Cons.IH])
  then show ?case by (simp add: comp_def)
qed

lemma appends_add_vnode: "appends (add_vnode L node ui)"
  unfolding appends_def
proof
  fix m
  show "\<exists>app. \<forall>xs. add_vnode L node ui (m\<lparr> vNodes := xs \<rparr>) =
          (add_vnode L node ui (m\<lparr> vNodes := [] \<rparr>))\<lparr> vNodes := xs @ app \<rparr>"
  proof (cases "vnode_pos L node ui m")
    case None
    then show ?thesis by (intro exI [of _ "[]"]) (simp add: add_vnode_def)
  next
    case (Some p)
    then show ?thesis by (intro exI [of _ "[p]"]) (simp add: add_vnode_def)
  qed
qed

lemma appends_add_node: "appends (add_node L node)"
  unfolding appends_def
proof
  fix m :: HashRing
  let ?F = "fold (\<lambda>i. add_vnode L node (of_nat i)) [0 ..< unat (replicas m)]"
  show "\<exists>app. \<forall>xs. add_node L node (m\<lparr> vNodes := xs \<rparr>) =
          (add_node L node (m\<lparr> vNodes := [] \<rparr>))\<lparr> vNodes := xs @ app \<rparr>"
  proof (cases "nodeToVnode m node")
    case (Some ps)
    then show ?thesis by (intro exI [of _ "[]"]) (simp add: add_node_def)
  next
    case None
    let ?Y = "(nodeToVnode m)(node \<mapsto> [])"
    have "appends ?F" by (rule appends_fold) (rule appends_add_vnode)
    from appendsD [OF this, of "m\<lparr> nodeToVnode := ?Y \<rparr>"]
    obtain app where app:
      "\<And>xs. ?F (m\<lparr> nodeToVnode := ?Y \<rparr>\<lparr> vNodes := xs \<rparr>) =
         (?F (m\<lparr> nodeToVnode := ?Y \<rparr>\<lparr> vNodes := [] \<rparr>))\<lparr> vNodes := xs @ app \<rparr>"
      by blast
    have comm: "m\<lparr> vNodes := xs \<rparr>\<lparr> nodeToVnode := ?Y \<rparr> = m\<lparr> nodeToVnode := ?Y \<rparr>\<lparr> vNodes := xs \<rparr>"
      for xs by simp
    have "add_node L node (m\<lparr> vNodes := xs \<rparr>) =
          (add_node L node (m\<lparr> vNodes := [] \<rparr>))\<lparr> vNodes := xs @ app \<rparr>" for xs
    proof -
      have "add_node L node (m\<lparr> vNodes := xs \<rparr>) = ?F (m\<lparr> vNodes := xs \<rparr>\<lparr> nodeToVnode := ?Y \<rparr>)"
        using None by (simp add: add_node_def)
      also have "\<dots> = ?F (m\<lparr> nodeToVnode := ?Y \<rparr>\<lparr> vNodes := xs \<rparr>)"
        by (simp only: comm)
      also have "\<dots> = (?F (m\<lparr> nodeToVnode := ?Y \<rparr>\<lparr> vNodes := [] \<rparr>))\<lparr> vNodes := xs @ app \<rparr>"
        by (rule app)
      also have "?F (m\<lparr> nodeToVnode := ?Y \<rparr>\<lparr> vNodes := [] \<rparr>) =
                 ?F (m\<lparr> vNodes := [] \<rparr>\<lparr> nodeToVnode := ?Y \<rparr>)"
        by (simp only: comm)
      also have "\<dots> = add_node L node (m\<lparr> vNodes := [] \<rparr>)"
        using None by (simp add: add_node_def)
      finally show ?thesis .
    qed
    then show ?thesis by blast
  qed
qed

lemma appends_add_nodes: "appends (fold (add_node L) nodes)"
  by (rule appends_fold) (rule appends_add_node)

lemma sort_sort_append:
  fixes xs ys :: "'a::linorder list"
  shows "sort (sort xs @ ys) = sort (xs @ ys)"
proof -
  have "sort (sort xs @ ys) = fold insort ys (sort (sort xs))"
    by (simp add: sort_conv_fold)
  also have "sort (sort xs) = sort xs" by (simp add: sort_key_id_if_sorted)
  also have "fold insort ys (sort xs) = sort (xs @ ys)"
    by (simp add: sort_conv_fold)
  finally show ?thesis .
qed


lemma range_keys_set: "visits ord ks \<Longrightarrow> set (range_keys ord ks) = ks"
  by (auto simp: range_keys_def visits_def)

lemma range_keys_distinct: "visits ord ks \<Longrightarrow> distinct (range_keys ord ks)"
  by (simp add: range_keys_def visits_def)

lemma remove_nonempty:
  "nodes \<noteq> [] \<Longrightarrow>
   remove doSort vord nodes m =
     (fold remove_node nodes m)
       \<lparr> vNodes := (if doSort
                    then sort (range_keys vord (dom (vnodeToNode (fold remove_node nodes m))))
                    else range_keys vord (dom (vnodeToNode (fold remove_node nodes m)))) \<rparr>"
  by (simp add: remove_def rebuildVNodeSlice_def Let_def)

lemma add_nonempty:
  "nodes \<noteq> [] \<Longrightarrow> replicas m \<noteq> 0 \<Longrightarrow>
   add doSort nodes m =
     (if doSort
      then (fold (add_node (segment_len (replicas m))) nodes m)
             \<lparr> vNodes := sort (vNodes (fold (add_node (segment_len (replicas m))) nodes m)) \<rparr>
      else fold (add_node (segment_len (replicas m))) nodes m, None)"
  by (simp add: add_def Let_def)

text \<open>
  C5 (as amended).  On a ring a caller can hold, a \<open>Reset\<close> that does not return
  \<open>ErrRingFull\<close> returns what \<open>Remove\<close> of the ring's nodes outside the target, followed by
  \<open>Add\<close> of the target's nodes outside the ring, returns: the same ring in every field and
  no error.  The two lists are taken in the order in which \<open>Reset\<close> ranges over
  \<open>nodeToVnode\<close> and over the target set.
\<close>

theorem Reset_as_Remove_Add:
  assumes r: "reachable m"
    and vn: "visits nord (dom (nodeToVnode m))" and vr: "visits rord (set nodes)"
    and ok: "snd (Reset nord vord rord m nodes) \<noteq> Some ErrRingFull"
  shows "Reset nord vord rord m nodes =
         Add (Remove vord m (filter (\<lambda>n. n \<notin> set nodes) (range_keys nord (dom (nodeToVnode m)))))
             (filter (\<lambda>n. nodeToVnode m n = None) (range_keys rord (set nodes)))"
proof -
  from r have inv: "ring_inv m" by (rule reachable_inv)
  then have inv0: "ring_inv0 m" and srt: "sorted (vNodes m)" by (simp_all add: ring_inv_def)
  from inv0 have R: "replicas m \<noteq> 0" by (auto simp: ring_inv0_def dest: replicas_nonzero)
  have cap: "\<not> limitVNodes < length nodes * unat (replicas m)"
    using ok by (auto simp: Reset_def)
  define delNodes where
    "delNodes = filter (\<lambda>ringNode. ringNode \<notin> set nodes) (range_keys nord (dom (nodeToVnode m)))"
  define m1 where "m1 = remove False vord delNodes m"
  define addNodes where
    "addNodes = filter (\<lambda>node. nodeToVnode m1 node = None) (range_keys rord (set nodes))"
  define m1' where "m1' = remove True vord delNodes m"
  let ?M0 = "fold remove_node delNodes m"
  let ?L = "segment_len (replicas m)"
  let ?F = "fold (add_node ?L) addNodes"
  have dels: "set delNodes = dom (nodeToVnode m) - set nodes"
    by (auto simp: delNodes_def range_keys_set [OF vn])
  have n1: "nodeToVnode m1 n = (if n \<in> set delNodes then None else nodeToVnode m n)" for n
    by (simp add: m1_def remove_maps remove_nodes_nodeToVnode)
  have adds_eq: "addNodes = filter (\<lambda>n. nodeToVnode m n = None) (range_keys rord (set nodes))"
    unfolding addNodes_def
    by (rule filter_cong) (auto simp: n1 dels range_keys_set [OF vr])
  have adds: "set addNodes = set nodes - dom (nodeToVnode m)" "distinct addNodes"
    unfolding adds_eq using range_keys_distinct [OF vr]
    by (auto simp: range_keys_set [OF vr])
  \<comment> \<open>the capacity check of Add passes\<close>
  have maps': "vnodeToNode m1' = vnodeToNode ?M0" "nodeToVnode m1' = nodeToVnode ?M0"
    "replicas m1' = replicas m"
    by (simp_all add: m1'_def remove_maps)
  have d1: "dual_ok m1'"
    using remove_nodes_dual_ok [of m delNodes] inv0 by (simp add: dual_ok_def maps' ring_inv0_def)
  have dom1: "dom (nodeToVnode m1') = dom (nodeToVnode m) \<inter> set nodes"
    by (auto simp: maps' remove_nodes_nodeToVnode dels split: if_splits)
  have s1: "slices_ok m1'"
    using inv0
    by (auto simp: slices_ok_def maps' remove_nodes_nodeToVnode ring_inv0_def split: if_splits)
  have f1: "finite (dom (nodeToVnode m1'))" unfolding dom1 by simp
  have "card (dom (nodeToVnode m) \<inter> set nodes) + card (set nodes - dom (nodeToVnode m))
        = card (set nodes)"
    using card_Un_disjoint [of "dom (nodeToVnode m) \<inter> set nodes" "set nodes - dom (nodeToVnode m)"]
    by (simp add: Int_Diff_Un Int_commute Un_Diff_Int inf_sup_aci)
  moreover have "length addNodes = card (set nodes - dom (nodeToVnode m))"
    using adds distinct_card [of addNodes] by simp
  moreover have "card (set nodes) \<le> length nodes" by (rule card_length)
  ultimately have "card (dom (nodeToVnode m1')) + length addNodes \<le> length nodes"
    unfolding dom1 by simp
  then have "(card (dom (nodeToVnode m1')) + length addNodes) * unat (replicas m)
             \<le> length nodes * unat (replicas m)"
    by (rule mult_le_mono1)
  with len_map_bound [OF d1 s1 f1] cap
  have chk: "\<not> limitVNodes < len_map (vnodeToNode m1') + length addNodes * unat (replicas m1')"
    by (simp add: maps' add_mult_distrib)
  have A: "Add m1' addNodes = add True addNodes m1'"
    using chk by (simp add: Add_def)
  \<comment> \<open>the two computations\<close>
  have npanic: "snd (add False addNodes m1) = None"
    using R by (simp add: add_def Let_def m1_def)
  obtain m2 where m2: "add False addNodes m1 = (m2, None)"
    using npanic by (cases "add False addNodes m1") auto
  have Rs: "Reset nord vord rord m nodes =
     (if delNodes \<noteq> [] \<or> addNodes \<noteq> [] then m2\<lparr> vNodes := sort (vNodes m2) \<rparr> else m2, None)"
    unfolding Reset_unfold [OF cap delNodes_def m1_def addNodes_def] m2 by simp
  have goal: "Reset nord vord rord m nodes = Add m1' addNodes"
  proof (cases "delNodes = []")
    case True
    then have e: "m1 = m" "m1' = m" by (simp_all add: m1_def m1'_def remove_def)
    show ?thesis
    proof (cases "addNodes = []")
      case True
      with Rs A m2 e \<open>delNodes = []\<close> show ?thesis by (simp add: add_def)
    next
      case False
      with Rs A m2 e R show ?thesis by (simp add: add_nonempty)
    qed
  next
    case False
    let ?ks = "range_keys vord (dom (vnodeToNode ?M0))"
    have e: "m1 = ?M0\<lparr> vNodes := ?ks \<rparr>" "m1' = ?M0\<lparr> vNodes := sort ?ks \<rparr>"
      using False by (simp_all add: m1_def m1'_def remove_nonempty)
    show ?thesis
    proof (cases "addNodes = []")
      case True
      from True m2 have "m2 = m1" by (simp add: add_def)
      then have "m2\<lparr> vNodes := sort (vNodes m2) \<rparr> = m1'" unfolding e by simp
      moreover from True A have "Add m1' addNodes = (m1', None)" by (simp add: add_def)
      ultimately show ?thesis using Rs False by simp
    next
      case ne: False
      from appendsD [OF appends_add_nodes, of ?L addNodes ?M0]
      obtain app where app:
        "\<And>xs. ?F (?M0\<lparr> vNodes := xs \<rparr>) = (?F (?M0\<lparr> vNodes := [] \<rparr>))\<lparr> vNodes := xs @ app \<rparr>"
        by blast
      have "m2 = ?F (?M0\<lparr> vNodes := ?ks \<rparr>)"
        using m2 ne R by (simp add: add_nonempty e)
      then have L: "m2\<lparr> vNodes := sort (vNodes m2) \<rparr> =
         (?F (?M0\<lparr> vNodes := [] \<rparr>))\<lparr> vNodes := sort (?ks @ app) \<rparr>"
        by (simp add: app [of ?ks])
      have "fst (add True addNodes m1') =
         (?F (?M0\<lparr> vNodes := sort ?ks \<rparr>))
           \<lparr> vNodes := sort (vNodes (?F (?M0\<lparr> vNodes := sort ?ks \<rparr>))) \<rparr>"
        using ne R by (simp add: add_nonempty e)
      also have "\<dots> = (?F (?M0\<lparr> vNodes := [] \<rparr>))\<lparr> vNodes := sort (sort ?ks @ app) \<rparr>"
        by (simp add: app [of "sort ?ks"])
      finally have Rr: "fst (add True addNodes m1') =
         (?F (?M0\<lparr> vNodes := [] \<rparr>))\<lparr> vNodes := sort (?ks @ app) \<rparr>"
        by (simp add: sort_sort_append)
      have "snd (add True addNodes m1') = None"
        using ne R by (simp add: add_nonempty e)
      with Rr L Rs A ne show ?thesis by (simp add: prod_eq_iff)
    qed
  qed
  show ?thesis
    using goal unfolding m1'_def Remove_def delNodes_def adds_eq .
qed

theorem Reset_as_Remove_Add_witness:
  "reachable (fst (Add (New 2 (Some zero_hash)) [''a'', ''b''])) \<and>
   visits [''a'', ''b''] (dom (nodeToVnode (fst (Add (New 2 (Some zero_hash)) [''a'', ''b'']))))
   \<and> visits [''b'', ''c''] (set [''b'', ''c'']) \<and>
   snd (Reset [''a'', ''b''] [0, 16777619, 2147483647, 2147483648] [''b'', ''c'']
          (fst (Add (New 2 (Some zero_hash)) [''a'', ''b''])) [''b'', ''c''])
     \<noteq> Some ErrRingFull \<and>
   Reset [''a'', ''b''] [0, 16777619, 2147483647, 2147483648] [''b'', ''c'']
       (fst (Add (New 2 (Some zero_hash)) [''a'', ''b''])) [''b'', ''c''] =
     Add (Remove [0, 16777619, 2147483647, 2147483648]
            (fst (Add (New 2 (Some zero_hash)) [''a'', ''b''])) [''a'']) [''c''] \<and>
   vnodeToNode (fst (Reset [''a'', ''b''] [0, 16777619, 2147483647, 2147483648] [''b'', ''c'']
       (fst (Add (New 2 (Some zero_hash)) [''a'', ''b''])) [''b'', ''c''])) =
     [16777619 \<mapsto> ''b'', 2147483648 \<mapsto> ''b'', 0 \<mapsto> ''c'', 2147483647 \<mapsto> ''c'']"
proof -
  let ?m = "fst (Add (New 2 (Some zero_hash)) [''a'', ''b''])"
  let ?vord = "[0, 16777619, 2147483647, 2147483648] :: u32 list"
  have r: "reachable ?m" by (intro reach_Add reach_New)
  have vn: "visits [''a'', ''b''] (dom (nodeToVnode ?m))"
    and vr: "visits [''b'', ''c''] (set [''b'', ''c''])"
    by (auto simp: ring_ab visits_def)
  have R: "Reset [''a'', ''b''] ?vord [''b'', ''c''] ?m [''b'', ''c''] =
    (\<lparr> HashFunc = zero_hash, replicas = 2, vNodes = [0, 16777619, 2147483647, 2147483648],
       vnodeToNode = [16777619 \<mapsto> ''b'', 2147483648 \<mapsto> ''b'', 0 \<mapsto> ''c'',
         2147483647 \<mapsto> ''c''],
       nodeToVnode = [''b'' \<mapsto> [16777619, 2147483648], ''c'' \<mapsto> [0, 2147483647]] \<rparr>, None)"
    unfolding ring_ab
    by (simp add: Reset_def remove_def remove_node_def rebuildVNodeSlice_def range_keys_def
        add_def add_node_def add_vnode_def vnode_pos_def segment_pos_def segment_len_def
        numHash_def zero_hash_def Let_def upt_conv_Cons limitVNodes_def fun_eq_iff)
  then have ok: "snd (Reset [''a'', ''b''] ?vord [''b'', ''c''] ?m [''b'', ''c''])
      \<noteq> Some ErrRingFull"
    by simp
  have f: "filter (\<lambda>n. n \<notin> set [''b'', ''c'']) (range_keys [''a'', ''b''] (dom (nodeToVnode ?m)))
      = [''a'']"
    "filter (\<lambda>n. nodeToVnode ?m n = None) (range_keys [''b'', ''c''] (set [''b'', ''c'']))
      = [''c'']"
    by (simp_all add: ring_ab range_keys_def)
  note T = Reset_as_Remove_Add [OF r vn vr ok, unfolded f]
  have v: "vnodeToNode (fst (Reset [''a'', ''b''] ?vord [''b'', ''c''] ?m [''b'', ''c''])) =
     [16777619 \<mapsto> ''b'', 2147483648 \<mapsto> ''b'', 0 \<mapsto> ''c'', 2147483647 \<mapsto> ''c'']"
    unfolding R by simp
  show ?thesis by (intro conjI r vn vr ok T v)
qed

lemma many_nodes_length [simp]: "length (many_nodes n) = n"
  by (simp add: many_nodes_def)

lemma many_nodes_distinct: "distinct (many_nodes n)"
  by (auto simp: many_nodes_def distinct_map inj_on_def)

lemma many_nodes_not_a: "''a'' \<notin> set (many_nodes n)"
  by (auto simp: many_nodes_def)

lemma range_keys_self: "range_keys xs (set xs) = xs"
  by (simp add: range_keys_def)

text \<open>
  C5 as stated fails when \<open>Reset\<close> rejects the call.  With 65535 replicas, a ring holding
  \<open>a\<close> and a target of 16385 distinct names, none of them \<open>a\<close>: \<open>Reset\<close> returns
  \<open>ErrRingFull\<close> and the ring still holds \<open>a\<close>; \<open>Remove\<close> of \<open>a\<close> followed by \<open>Add\<close> of the
  target leaves an empty ring (\<open>Add\<close> is rejected as well).  After the removal of \<open>a\<close> the
  position map is empty, so the order of its keys is the empty list.
\<close>

theorem Reset_ring_full_counterexample:
  "distinct (many_nodes 16385) \<and>
   reachable (fst (Add (New 65535 (Some zero_hash)) [''a''])) \<and>
   dom (nodeToVnode (fst (Add (New 65535 (Some zero_hash)) [''a'']))) = {''a''} \<and>
   Reset [''a''] [] (many_nodes 16385)
       (fst (Add (New 65535 (Some zero_hash)) [''a''])) (many_nodes 16385)
     = (fst (Add (New 65535 (Some zero_hash)) [''a'']), Some ErrRingFull) \<and>
   filter (\<lambda>n. n \<notin> set (many_nodes 16385))
     (range_keys [''a''] (dom (nodeToVnode (fst (Add (New 65535 (Some zero_hash)) [''a''])))))
     = [''a''] \<and>
   filter (\<lambda>n. nodeToVnode (fst (Add (New 65535 (Some zero_hash)) [''a''])) n = None)
     (range_keys (many_nodes 16385) (set (many_nodes 16385)))
     = many_nodes 16385 \<and>
   dom (vnodeToNode (Remove [] (fst (Add (New 65535 (Some zero_hash)) [''a''])) [''a''])) = {} \<and>
   dom (nodeToVnode (fst (Add
     (Remove [] (fst (Add (New 65535 (Some zero_hash)) [''a''])) [''a''])
     (many_nodes 16385)))) = {}"
proof -
  let ?A = "fst (Add (New 65535 (Some zero_hash)) [''a''])"
  let ?S = "many_nodes 16385"
  note d = ring65(2)
  have R: "Reset [''a''] [] ?S ?A ?S = (?A, Some ErrRingFull)"
    by (simp add: Reset_def ring65 limitVNodes_def)
  have dels: "filter (\<lambda>n. n \<notin> set ?S) (range_keys [''a''] (dom (nodeToVnode ?A))) = [''a'']"
    unfolding d by (simp add: range_keys_def many_nodes_not_a)
  have none: "nodeToVnode ?A n = None" if "n \<noteq> ''a''" for n
    using d that by (metis domIff singletonD)
  have adds: "filter (\<lambda>n. nodeToVnode ?A n = None) (range_keys ?S (set ?S)) = ?S"
    unfolding range_keys_self
  proof (rule filter_True, rule ballI)
    fix n assume "n \<in> set ?S"
    with many_nodes_not_a [of 16385] have "n \<noteq> ''a''" by blast
    then show "nodeToVnode ?A n = None" by (rule none)
  qed
  have nrm: "nodeToVnode (Remove [] ?A [''a'']) n = None" for n
  proof (cases "n = ''a''")
    case True
    then show ?thesis by (simp add: Remove_def remove_maps remove_node_nodeToVnode)
  next
    case False
    then show ?thesis
      by (simp add: Remove_def remove_maps remove_node_nodeToVnode none)
  qed
  then have n0: "dom (nodeToVnode (Remove [] ?A [''a''])) = {}" by (simp add: dom_def)
  have "dual_ok ?A" using reachable_inv [OF ring65(3)] by (simp add: ring_inv_def ring_inv0_def)
  then have "dual_ok (fold remove_node [''a''] ?A)" by (rule remove_nodes_dual_ok)
  then have dl: "dual_ok (Remove [] ?A [''a''])"
    unfolding dual_ok_def Remove_def remove_maps .
  have "vnodeToNode (Remove [] ?A [''a'']) p = None" for p
  proof (cases "vnodeToNode (Remove [] ?A [''a'']) p")
    case None
    then show ?thesis .
  next
    case (Some n)
    with dl obtain ps where "nodeToVnode (Remove [] ?A [''a'']) n = Some ps"
      unfolding dual_ok_def by blast
    with nrm [of n] show ?thesis by simp
  qed
  then have v0: "dom (vnodeToNode (Remove [] ?A [''a''])) = {}" by (simp add: dom_def)
  have "Add (Remove [] ?A [''a'']) ?S = (Remove [] ?A [''a''], Some ErrRingFull)"
    by (rule Add_full) (simp add: Remove_def ring65 limitVNodes_def)
  with n0 have e: "dom (nodeToVnode (fst (Add (Remove [] ?A [''a'']) ?S))) = {}" by simp
  show ?thesis by (intro conjI many_nodes_distinct ring65(3) d R dels adds v0 e)
qed

end
